theory Spec2Isabelle
  imports Main
begin

section \<open>Go strings, runes and the regular expressions of internal/usagelimit\<close>

text \<open>
  Go's \<^verbatim>\<open>regexp\<close> package reads a string as a sequence of Unicode code points
  (runes).  A captured pane text is therefore modelled as the list of its runes, a rune
  being its code point.  String literals of the source are written as Isabelle strings
  and converted by \<open>runes\<close>.
\<close>

type_synonym rune = int
type_synonym gostring = "rune list"

definition runes :: "string \<Rightarrow> gostring" where
  "runes s = map of_char s"

text \<open>
  The flag \<^verbatim>\<open>(?i)\<close> makes a pattern rune match every rune of its simple case-folding
  orbit.  All pattern runes of this package are ASCII; the orbits of ASCII letters are
  the letter in both cases, plus U+017F (long s, 383) for s and U+212A (Kelvin sign,
  8490) for k.  \<open>foldRune\<close> maps every rune of such an orbit to the lower-case letter.
\<close>

definition foldRune :: "rune \<Rightarrow> rune" where
  "foldRune r =
     (if 65 \<le> r \<and> r \<le> 90 then r + 32
      else if r = 383 then 115
      else if r = 8490 then 107
      else r)"

definition eqFold :: "rune \<Rightarrow> rune \<Rightarrow> bool" where
  "eqFold p r = (foldRune p = foldRune r)"

text \<open>
  Character classes: a single rune under \<^verbatim>\<open>(?i)\<close>, the dot (any rune but newline, as
  the flag \<^verbatim>\<open>s\<close> is not set) and \<^verbatim>\<open>\d\<close> (ASCII digits only in Go).
\<close>

datatype cls = Chr rune | AnyNotNL | Digit

fun inClass :: "cls \<Rightarrow> rune \<Rightarrow> bool" where
  "inClass (Chr p) r = eqFold p r"
| "inClass AnyNotNL r = (r \<noteq> 10)"
| "inClass Digit r = (48 \<le> r \<and> r \<le> 57)"

text \<open>
  The fragment of the regular-expression syntax that the four patterns use: a literal
  string, a greedy bounded repetition of a character class (\<^verbatim>\<open>c{lo,hi}\<close>, with
  \<^verbatim>\<open>c+\<close> as \<open>Rep c 1 None\<close> and \<^verbatim>\<open>c?\<close> as \<open>Rep c 0 (Some 1)\<close>), concatenation,
  alternation and a capturing group.
\<close>

datatype re =
    Lit gostring
  | Rep cls nat "nat option"
  | Seq re re
  | Alt re re
  | Grp re

fun ngroups :: "re \<Rightarrow> nat" where
  "ngroups (Lit p) = 0"
| "ngroups (Rep c lo hi) = 0"
| "ngroups (Seq a b) = ngroups a + ngroups b"
| "ngroups (Alt a b) = ngroups a + ngroups b"
| "ngroups (Grp a) = Suc (ngroups a)"

fun hasPrefixFold :: "gostring \<Rightarrow> gostring \<Rightarrow> bool" where
  "hasPrefixFold [] s = True"
| "hasPrefixFold (p # ps) [] = False"
| "hasPrefixFold (p # ps) (r # rs) = (eqFold p r \<and> hasPrefixFold ps rs)"

text \<open>
  \<open>rmatch r s\<close> lists the ways \<open>r\<close> matches a prefix of \<open>s\<close>, as pairs of the groups'
  captures and the unread rest, in the order a backtracking search finds them: the
  leftmost-first order that Go's \<^verbatim>\<open>regexp\<close> documents.  A group that takes no part in the
  match captures \<open>None\<close>.
\<close>

fun rmatch :: "re \<Rightarrow> gostring \<Rightarrow> (gostring option list \<times> gostring) list" where
  "rmatch (Lit p) s = (if hasPrefixFold p s then [([], drop (length p) s)] else [])"
| "rmatch (Rep c lo hi) s =
     (let n = length (takeWhile (inClass c) s);
          top = (case hi of None \<Rightarrow> n | Some h \<Rightarrow> min n h)
      in map (\<lambda>k. ([], drop k s)) (rev [lo ..< Suc top]))"
| "rmatch (Seq a b) s =
     concat (map (\<lambda>(c1, s1). map (\<lambda>(c2, s2). (c1 @ c2, s2)) (rmatch b s1)) (rmatch a s))"
| "rmatch (Alt a b) s =
     map (\<lambda>(c, t). (c @ replicate (ngroups b) None, t)) (rmatch a s) @
     map (\<lambda>(c, t). (replicate (ngroups a) None @ c, t)) (rmatch b s)"
| "rmatch (Grp a) s =
     map (\<lambda>(c, t). (Some (take (length s - length t) s) # c, t)) (rmatch a s)"

text \<open>\<^verbatim>\<open>(*Regexp).MatchString\<close>: some substring of the text matches.\<close>

fun MatchString :: "re \<Rightarrow> gostring \<Rightarrow> bool" where
  "MatchString r [] = (rmatch r [] \<noteq> [])"
| "MatchString r (x # xs) = (rmatch r (x # xs) \<noteq> [] \<or> MatchString r xs)"

text \<open>
  \<^verbatim>\<open>(*Regexp).FindStringSubmatch\<close>: the leftmost match, as the matched text followed
  by the text of every group (empty for a group that took no part); \<^verbatim>\<open>nil\<close>, a slice
  of length 0, when nothing matches.
\<close>

definition submatches :: "gostring \<Rightarrow> gostring option list \<times> gostring \<Rightarrow> gostring list" where
  "submatches s m =
     take (length s - length (snd m)) s # map (\<lambda>g. case g of None \<Rightarrow> [] | Some t \<Rightarrow> t) (fst m)"

fun FindStringSubmatch :: "re \<Rightarrow> gostring \<Rightarrow> gostring list" where
  "FindStringSubmatch r [] = (case rmatch r [] of [] \<Rightarrow> [] | m # ms \<Rightarrow> submatches [] m)"
| "FindStringSubmatch r (x # xs) =
     (case rmatch r (x # xs) of
        [] \<Rightarrow> FindStringSubmatch r xs
      | m # ms \<Rightarrow> submatches (x # xs) m)"

subsection \<open>parser.go: the four patterns\<close>

text \<open>
  \<^verbatim>\<open>(?i)(exceeded your usage limit|usage limits.{0,60}try again after|rate limit.{0,60}retry after)\<close>
\<close>

definition errorRe :: re where
  "errorRe =
     Grp (Alt (Lit (runes ''exceeded your usage limit''))
         (Alt (Seq (Lit (runes ''usage limits''))
                (Seq (Rep AnyNotNL 0 (Some 60)) (Lit (runes ''try again after''))))
              (Seq (Lit (runes ''rate limit''))
                (Seq (Rep AnyNotNL 0 (Some 60)) (Lit (runes ''retry after''))))))"

text \<open>\<^verbatim>\<open>(?i)after (\d+):(\d+) UTC\<close>\<close>

definition utcTimeRe :: re where
  "utcTimeRe =
     Seq (Lit (runes ''after ''))
       (Seq (Grp (Rep Digit 1 None))
         (Seq (Lit (runes '':''))
           (Seq (Grp (Rep Digit 1 None)) (Lit (runes '' UTC'')))))"

text \<open>\<^verbatim>\<open>(?i)in (\d+) hours?\<close>\<close>

definition hoursRe :: re where
  "hoursRe =
     Seq (Lit (runes ''in ''))
       (Seq (Grp (Rep Digit 1 None))
         (Seq (Lit (runes '' hour'')) (Rep (Chr 115) 0 (Some 1))))"

text \<open>\<^verbatim>\<open>(?i)(\d+) minutes?\<close>\<close>

definition minsRe :: re where
  "minsRe =
     Seq (Grp (Rep Digit 1 None))
       (Seq (Lit (runes '' minute'')) (Rep (Chr 115) 0 (Some 1)))"

text \<open>\<^verbatim>\<open>func HasError(text string) bool\<close>\<close>

definition HasError :: "gostring \<Rightarrow> bool" where
  "HasError txt = MatchString errorRe txt"

subsection \<open>Go integers and strconv.Atoi\<close>

text \<open>
  Go's \<^verbatim>\<open>int\<close> is taken to be 64 bits wide, as on every 64-bit target.  Values are
  integers in the range of \<open>int64\<close>; arithmetic wraps around, which \<open>int64\<close> writes out.
\<close>

definition maxInt :: int where
  "maxInt = 9223372036854775807"

definition minInt :: int where
  "minInt = - 9223372036854775808"

definition int64 :: "int \<Rightarrow> int" where
  "int64 x = (x + 9223372036854775808) mod 18446744073709551616 - 9223372036854775808"

fun isDigits :: "gostring \<Rightarrow> bool" where
  "isDigits [] = True"
| "isDigits (r # rs) = (48 \<le> r \<and> r \<le> 57 \<and> isDigits rs)"

fun decimal :: "int \<Rightarrow> gostring \<Rightarrow> int" where
  "decimal acc [] = acc"
| "decimal acc (r # rs) = decimal (acc * 10 + (r - 48)) rs"

text \<open>
  \<^verbatim>\<open>strconv.Atoi\<close>, with the error dropped as the callers drop it: an optional sign and
  decimal digits; 0 on a syntax error; the nearest bound of \<^verbatim>\<open>int\<close> when the number is
  out of range.
\<close>

definition Atoi :: "gostring \<Rightarrow> int" where
  "Atoi s =
     (let neg = (s \<noteq> [] \<and> hd s = 45);
          ds = (if s \<noteq> [] \<and> (hd s = 43 \<or> hd s = 45) then tl s else s)
      in if ds = [] \<or> \<not> isDigits ds then 0
         else if neg then max minInt (- decimal 0 ds)
         else min maxInt (decimal 0 ds))"

subsection \<open>The clock\<close>

text \<open>
  A \<^verbatim>\<open>time.Time\<close> is modelled as its number of nanoseconds since the Unix epoch, in
  UTC, and a \<^verbatim>\<open>time.Duration\<close> as a number of nanoseconds.  The functions of package
  \<^verbatim>\<open>time\<close> are modelled as documented: \<^verbatim>\<open>Date\<close> normalises hours and minutes
  outside their usual ranges, \<^verbatim>\<open>Sub\<close> saturates at the bounds of a Duration, and the
  conversion \<^verbatim>\<open>int(d.Seconds())\<close> truncates towards zero.  \<^verbatim>\<open>Seconds\<close> returns a
  floating-point number; its rounding cannot reach the next whole second for a duration
  below \<open>2\<^sup>2\<^sup>4\<close> seconds (194 days), so that the truncation is exact there.
\<close>

type_synonym gotime = int

definition Second :: int where
  "Second = 1000000000"

definition dayNanos :: int where
  "dayNanos = 86400 * Second"

text \<open>
  \<^verbatim>\<open>time.Date(now.Year(), now.Month(), now.Day(), h, min, 0, 0, time.UTC)\<close>: the
  midnight that starts the day of \<open>now\<close>, plus \<open>h\<close> hours and \<open>mn\<close> minutes.  This
  is what \<^verbatim>\<open>Date\<close> returns as long as its own arithmetic does not overflow, which
  takes an hour or a minute far beyond the \<open>2\<^sup>2\<^sup>4\<close> seconds up to which the
  properties below use it.
\<close>

definition DateToday :: "gotime \<Rightarrow> int \<Rightarrow> int \<Rightarrow> gotime" where
  "DateToday now h mn = (now - now mod dayNanos) + h * (3600 * Second) + mn * (60 * Second)"

definition Sub :: "gotime \<Rightarrow> gotime \<Rightarrow> int" where
  "Sub t u = max minInt (min maxInt (t - u))"

definition quo :: "int \<Rightarrow> int \<Rightarrow> int" where
  "quo a b = sgn a * sgn b * (\<bar>a\<bar> div \<bar>b\<bar>)"

definition rem :: "int \<Rightarrow> int \<Rightarrow> int" where
  "rem a b = a - b * quo a b"

definition SecondsInt :: "int \<Rightarrow> int" where
  "SecondsInt d = quo d Second"

subsection \<open>parser.go: ExtractWaitSecs\<close>

text \<open>
  \<^verbatim>\<open>func ExtractWaitSecs(text string) int\<close>.  The function reads the clock, so the
  value of \<^verbatim>\<open>time.Now().UTC()\<close> is a parameter.  \<open>utcWait\<close> is the first block of the
  body (its result is \<open>None\<close> when the block does not return), \<open>relativeWait\<close> the rest.
\<close>

definition utcWait :: "gotime \<Rightarrow> gostring \<Rightarrow> int option" where
  "utcWait now txt =
     (case FindStringSubmatch utcTimeRe txt of
        [m0, m1, m2] \<Rightarrow>
          (let h = Atoi m1;
               mn = Atoi m2;
               target = DateToday now h mn;
               target' = (if \<not> now < target then target + 24 * (3600 * Second) else target);
               secs = SecondsInt (Sub target' now)
           in if 0 < secs then Some secs else None)
      | _ \<Rightarrow> None)"

definition relativeWait :: "gostring \<Rightarrow> int" where
  "relativeWait txt =
     (let hours = (case FindStringSubmatch hoursRe txt of [m0, m1] \<Rightarrow> Atoi m1 | _ \<Rightarrow> 0);
          mins = (if 0 < hours
                  then (case FindStringSubmatch minsRe txt of [m0, m1] \<Rightarrow> Atoi m1 | _ \<Rightarrow> 0)
                  else 0)
      in if 0 < hours \<or> 0 < mins then int64 (hours * 3600 + mins * 60) else 3600)"

definition ExtractWaitSecs :: "gotime \<Rightarrow> gostring \<Rightarrow> int" where
  "ExtractWaitSecs now txt =
     (case utcWait now txt of Some secs \<Rightarrow> secs | None \<Rightarrow> relativeWait txt)"

section \<open>internal/config and cmd/root.go: the configuration and a worker's name\<close>

text \<open>The \<^verbatim>\<open>Config\<close> struct of internal/config.\<close>

record config =
  Num :: int
  Session :: string
  BaseBranch :: string
  CLIType :: string
  CLIFlags :: string
  AddMode :: bool
  ResumeBufferSec :: int
  MonitorInterval :: int
  WorktreePrefix :: string

text \<open>
  \<^verbatim>\<open>parseWorker\<close> splits \<^verbatim>\<open>"gemini:gemini-2.0-flash"\<close> at the first colon into the
  name and the model; a worker with no colon has the empty model.
\<close>

definition parseWorker :: "string \<Rightarrow> string \<times> string" where
  "parseWorker s =
     (if CHR '':'' \<in> set s
      then (takeWhile (\<lambda>c. c \<noteq> CHR '':'') s, tl (dropWhile (\<lambda>c. c \<noteq> CHR '':'') s))
      else (s, ''''))"

section \<open>cmd/root.go: the fallback for an assistant that fails to start\<close>

text \<open>
  The outcome of running \<^verbatim>\<open><binary> --version\<close> under a time limit of four seconds:
  whether the command failed, what it printed, and whether the time limit was hit.
\<close>

record probe =
  failed :: bool
  out :: string
  timedOut :: bool

text \<open>
  The outside of the selector: the outcomes of the two probes, and the names that
  \<^verbatim>\<open>exec.LookPath\<close> finds on the executable search path.
\<close>

record outside =
  geminiProbe :: probe
  codexProbe :: probe
  onPath :: "string \<Rightarrow> bool"

text \<open>The lines the selector prints, by their content.\<close>

datatype warning =
    GeminiNoFallback
  | GeminiReplaced int string
  | CodexNoFallback
  | CodexReplaced int string

definition commandExists :: "outside \<Rightarrow> string \<Rightarrow> bool" where
  "commandExists env name = onPath env name"

text \<open>\<^verbatim>\<open>strings.Contains\<close>\<close>

definition Contains :: "string \<Rightarrow> string \<Rightarrow> bool" where
  "Contains s substr = list_ex (\<lambda>i. take (length substr) (drop i s) = substr) [0 ..< Suc (length s)]"

definition geminiHealthCheck :: "probe \<Rightarrow> bool" where
  "geminiHealthCheck p =
     (if \<not> failed p then True
      else if Contains (out p) ''ReferenceError: File is not defined'' then False
      else if timedOut p then False
      else False)"

definition codexHealthCheck :: "probe \<Rightarrow> bool" where
  "codexHealthCheck p = (\<not> failed p \<and> \<not> timedOut p)"

fun containsCLIType :: "string list \<Rightarrow> string \<Rightarrow> bool" where
  "containsCLIType [] cliType = False"
| "containsCLIType (worker # workers) cliType =
     (if fst (parseWorker worker) = cliType then True else containsCLIType workers cliType)"

fun firstAvailableCLI :: "outside \<Rightarrow> string list \<Rightarrow> string \<times> bool" where
  "firstAvailableCLI env [] = ('''', False)"
| "firstAvailableCLI env (cliType # cliTypes) =
     (if commandExists env cliType then (cliType, True) else firstAvailableCLI env cliTypes)"

text \<open>
  The replacement loop of the earlier \<^verbatim>\<open>normalizeWorkers\<close> (part_000, lines 449 to
  458): a worker is replaced when it is the string \<^verbatim>\<open>"gemini"\<close>.  The result is the new
  list and the count of replacements.
\<close>

fun replaceGeminiExact :: "string \<Rightarrow> string list \<Rightarrow> string list \<times> int" where
  "replaceGeminiExact fallback [] = ([], 0)"
| "replaceGeminiExact fallback (cliType # workers) =
     (let (replaced, replacedCount) = replaceGeminiExact fallback workers
      in if cliType = ''gemini'' then (fallback # replaced, replacedCount + 1)
         else (cliType # replaced, replacedCount))"

text \<open>The earlier \<^verbatim>\<open>normalizeWorkers\<close> (part_000, lines 436 to 462).\<close>

definition normalizeWorkers_v1 :: "outside \<Rightarrow> string list \<Rightarrow> string list \<times> warning list" where
  "normalizeWorkers_v1 env workers =
     (if \<not> containsCLIType workers ''gemini'' then (workers, [])
      else if geminiHealthCheck (geminiProbe env) then (workers, [])
      else (let (fallback, ok) = firstAvailableCLI env [''claude'', ''codex'']
            in if \<not> ok then (workers, [GeminiNoFallback])
               else (let (replaced, replacedCount) = replaceGeminiExact fallback workers
                     in (replaced, [GeminiReplaced replacedCount fallback]))))"

text \<open>
  The replacement loop of \<^verbatim>\<open>normalizeGemini\<close> and \<^verbatim>\<open>normalizeCodex\<close> (part_000, lines
  1034 to 1042 and 1063 to 1071): a worker is replaced when its name, the part before
  the colon, is the failing assistant's.
\<close>

fun replaceByName :: "string \<Rightarrow> string \<Rightarrow> string list \<Rightarrow> string list \<times> int" where
  "replaceByName name fallback [] = ([], 0)"
| "replaceByName name fallback (cliType # workers) =
     (let (replaced, replacedCount) = replaceByName name fallback workers
      in if fst (parseWorker cliType) = name then (fallback # replaced, replacedCount + 1)
         else (cliType # replaced, replacedCount))"

definition normalizeGemini :: "outside \<Rightarrow> string list \<Rightarrow> string list \<times> warning list" where
  "normalizeGemini env workers =
     (if \<not> containsCLIType workers ''gemini'' then (workers, [])
      else if geminiHealthCheck (geminiProbe env) then (workers, [])
      else (let (fallback, ok) = firstAvailableCLI env [''claude'', ''codex'']
            in if \<not> ok then (workers, [GeminiNoFallback])
               else (let (replaced, replacedCount) = replaceByName ''gemini'' fallback workers
                     in (replaced, [GeminiReplaced replacedCount fallback]))))"

definition normalizeCodex :: "outside \<Rightarrow> string list \<Rightarrow> string list \<times> warning list" where
  "normalizeCodex env workers =
     (if \<not> containsCLIType workers ''codex'' then (workers, [])
      else if codexHealthCheck (codexProbe env) then (workers, [])
      else (let (fallback, ok) = firstAvailableCLI env [''claude'', ''gemini'']
            in if \<not> ok then (workers, [CodexNoFallback])
               else (let (replaced, replacedCount) = replaceByName ''codex'' fallback workers
                     in (replaced, [CodexReplaced replacedCount fallback]))))"

text \<open>The later \<^verbatim>\<open>normalizeWorkers\<close> (part_000, lines 1013 to 1017).\<close>

definition normalizeWorkers_v2 :: "outside \<Rightarrow> string list \<Rightarrow> string list \<times> warning list" where
  "normalizeWorkers_v2 env workers =
     (let (workers1, printed1) = normalizeGemini env workers;
          (workers2, printed2) = normalizeCodex env workers1
      in (workers2, printed1 @ printed2))"

section \<open>internal/monitor: Watch\<close>

text \<open>\<^verbatim>\<open>%d\<close> of \<^verbatim>\<open>fmt.Sprintf\<close>: a number in decimal, with a minus sign when negative.\<close>

definition digitChar :: "int \<Rightarrow> char" where
  "digitChar d =
     (if d = 0 then CHR ''0'' else if d = 1 then CHR ''1'' else if d = 2 then CHR ''2''
      else if d = 3 then CHR ''3'' else if d = 4 then CHR ''4'' else if d = 5 then CHR ''5''
      else if d = 6 then CHR ''6'' else if d = 7 then CHR ''7'' else if d = 8 then CHR ''8''
      else CHR ''9'')"

function digitsOf :: "int \<Rightarrow> string" where
  "digitsOf n = (if n < 10 then [digitChar n] else digitsOf (n div 10) @ [digitChar (n mod 10)])"
  by pat_completeness auto
termination
  by (relation "measure nat") auto

definition itoa :: "int \<Rightarrow> string" where
  "itoa i = (if i < 0 then CHR ''-'' # digitsOf (- i) else digitsOf i)"

text \<open>
  What \<^verbatim>\<open>Watch\<close> does to the outside: a line given to \<^verbatim>\<open>logf\<close> (the format and its
  arguments; the time stamp that \<^verbatim>\<open>logf\<close> puts in front is left out), and the calls
  \<^verbatim>\<open>tmux.SetPaneTitle\<close>, \<^verbatim>\<open>tmux.RenameWindow\<close> and \<^verbatim>\<open>tmux.SendKeys\<close> with their
  target and text.  The errors of the three calls are dropped by the code.
\<close>

datatype action =
    Logf string "string list"
  | SetPaneTitle string string
  | RenameWindow string string
  | SendKeys string string

text \<open>
  What the outside answers: which case a \<^verbatim>\<open>select\<close> takes, what \<^verbatim>\<open>tmux.CapturePane\<close>
  returns, what \<^verbatim>\<open>time.Now()\<close> reads and what \<^verbatim>\<open>tmux.HasSession\<close> returns.
\<close>

datatype event =
    CtxDone
  | TimerFired
  | Captured gostring
  | CaptureFailed
  | ClockIs gotime
  | SessionIs bool

text \<open>
  The points of \<^verbatim>\<open>Watch\<close> at which it waits for an answer, with the local variables
  that are live there: the \<^verbatim>\<open>select\<close> of the polling loop (line 29), the capture (line
  35), the clock read by \<^verbatim>\<open>ExtractWaitSecs\<close> (line 43; the function reads it only when
  its first pattern matches, the model gives it the value in any case), the clock read
  for the deadline (line 53), the clock read by the condition of the waiting loop (line
  54), the \<^verbatim>\<open>select\<close> of the waiting loop (line 55) and the session check (line 62).
  \<open>Returned\<close> is the end of the function; \<open>Stuck\<close> is reached by an answer to a question
  that was not asked.
\<close>

datatype point =
    AtSelect
  | AtCapture
  | AtExtractClock gostring
  | AtDeadlineClock int
  | AtLoopClock gotime
  | AtWaitSelect gotime
  | AtHasSession
  | Returned
  | Stuck

record wstate =
  detected :: bool
  at :: point

definition hitFormat :: string where
  "hitFormat = ''[worker-%d] API usage limit hit. Resuming in %dh %dm.''"

definition resumeFormat :: string where
  "resumeFormat = ''[worker-%d] Resuming with %s --continue.''"

text \<open>Lines 43 to 51: the wait is computed, logged and shown in the pane's title.\<close>

definition totalSecsOf :: "config \<Rightarrow> gotime \<Rightarrow> gostring \<Rightarrow> int" where
  "totalSecsOf cfg now content = int64 (ExtractWaitSecs now content + ResumeBufferSec cfg)"

definition announce :: "string \<Rightarrow> int \<Rightarrow> int \<Rightarrow> action list" where
  "announce paneID workerNum totalSecs =
     (let displayH = quo totalSecs 3600;
          displayM = quo (rem totalSecs 3600) 60
      in [Logf hitFormat [itoa workerNum, itoa displayH, itoa displayM],
          SetPaneTitle paneID
            (''worker-'' @ itoa workerNum @ '' [wait '' @ itoa displayH @ ''h'' @ itoa displayM @ ''m]'')])"

text \<open>Line 53: \<^verbatim>\<open>time.Now().Add(time.Duration(totalSecs) * time.Second)\<close>.\<close>

definition deadlineOf :: "gotime \<Rightarrow> int \<Rightarrow> gotime" where
  "deadlineOf now totalSecs = now + int64 (totalSecs * Second)"

text \<open>Lines 66 to 68: the resume.\<close>

definition resume :: "config \<Rightarrow> string \<Rightarrow> int \<Rightarrow> action list" where
  "resume cfg paneID workerNum =
     [Logf resumeFormat [itoa workerNum, CLIType cfg],
      SendKeys paneID (CLIType cfg @ '' --continue''),
      SetPaneTitle paneID (''worker-'' @ itoa workerNum)]"

text \<open>
  One answer of the outside takes \<^verbatim>\<open>Watch\<close> from one point to the next and has it
  perform the actions in between.
\<close>

definition step ::
  "config \<Rightarrow> string \<Rightarrow> string \<Rightarrow> int \<Rightarrow> wstate \<Rightarrow> event \<Rightarrow> wstate \<times> action list" where
  "step cfg session paneID workerNum st e =
     (case (at st, e) of
        (AtSelect, CtxDone) \<Rightarrow> (st\<lparr>at := Returned\<rparr>, [])
      | (AtSelect, TimerFired) \<Rightarrow> (st\<lparr>at := AtCapture\<rparr>, [])
      | (AtCapture, CaptureFailed) \<Rightarrow> (st\<lparr>at := Returned\<rparr>, [])
      | (AtCapture, Captured content) \<Rightarrow>
          (if \<not> detected st \<and> HasError content
           then (st\<lparr>detected := True, at := AtExtractClock content\<rparr>, [])
           else (st\<lparr>at := AtSelect\<rparr>, []))
      | (AtExtractClock content, ClockIs now) \<Rightarrow>
          (st\<lparr>at := AtDeadlineClock (totalSecsOf cfg now content)\<rparr>,
           announce paneID workerNum (totalSecsOf cfg now content))
      | (AtDeadlineClock totalSecs, ClockIs now) \<Rightarrow>
          (st\<lparr>at := AtLoopClock (deadlineOf now totalSecs)\<rparr>, [])
      | (AtLoopClock deadline, ClockIs now) \<Rightarrow>
          (if now < deadline then (st\<lparr>at := AtWaitSelect deadline\<rparr>, [])
           else (st\<lparr>at := AtHasSession\<rparr>, []))
      | (AtWaitSelect deadline, CtxDone) \<Rightarrow> (st\<lparr>at := Returned\<rparr>, [])
      | (AtWaitSelect deadline, TimerFired) \<Rightarrow> (st\<lparr>at := AtLoopClock deadline\<rparr>, [])
      | (AtHasSession, SessionIs alive) \<Rightarrow>
          (if \<not> alive then (st\<lparr>at := Returned\<rparr>, [])
           else (st\<lparr>detected := False, at := AtSelect\<rparr>, resume cfg paneID workerNum))
      | (Returned, _) \<Rightarrow> (st, [])
      | _ \<Rightarrow> (st\<lparr>at := Stuck\<rparr>, []))"

fun run ::
  "config \<Rightarrow> string \<Rightarrow> string \<Rightarrow> int \<Rightarrow> wstate \<Rightarrow> event list \<Rightarrow> wstate \<times> action list" where
  "run cfg session paneID workerNum st [] = (st, [])"
| "run cfg session paneID workerNum st (e # es) =
     (let (st', acts) = step cfg session paneID workerNum st e;
          (st'', acts') = run cfg session paneID workerNum st' es
      in (st'', acts @ acts'))"

text \<open>
  \<^verbatim>\<open>func Watch(ctx, cfg, session, paneID, workerNum, log)\<close>: the state in which it ends,
  or waits for the next answer, and the actions performed, for the answers given.
\<close>

definition Watch ::
  "config \<Rightarrow> string \<Rightarrow> string \<Rightarrow> int \<Rightarrow> event list \<Rightarrow> wstate \<times> action list" where
  "Watch cfg session paneID workerNum es =
     run cfg session paneID workerNum \<lparr>detected = False, at = AtSelect\<rparr> es"

text \<open>
  The variant of \<^verbatim>\<open>Watch\<close> that addresses a window (monitor.go, lines 74 to 150) runs
  through the same points; it renames the window where the other sets the pane's title.
  Its resume, lines 144 to 146, with the target \<^verbatim>\<open>session:windowID\<close>:
\<close>

definition resumeWindow :: "config \<Rightarrow> string \<Rightarrow> string \<Rightarrow> int \<Rightarrow> action list" where
  "resumeWindow cfg session windowID workerNum =
     (let target = session @ '':'' @ windowID
      in [Logf resumeFormat [itoa workerNum, CLIType cfg],
          SendKeys target (CLIType cfg @ '' --continue''),
          RenameWindow target (''worker-'' @ itoa workerNum)])"

subsection \<open>cmd/root.go: the start of a worker\<close>

text \<open>
  The two revisions of cmd/root.go that call this \<^verbatim>\<open>Watch\<close> accept a configuration
  only when \<^verbatim>\<open>cfg.CLIType\<close> is one of \<^verbatim>\<open>claude\<close>, \<^verbatim>\<open>gemini\<close> and \<^verbatim>\<open>codex\<close>
  (\<^verbatim>\<open>validate\<close>), and start every worker with that command; neither reads
  \<^verbatim>\<open>cfg.CLIFlags\<close> or a model.  The keys of the first are
  \<^verbatim>\<open>fmt.Sprintf("cd '%s' && %s", dir, cmd)\<close>:
\<close>

definition launchKeys :: "string \<Rightarrow> string \<Rightarrow> string" where
  "launchKeys dir cmd = ''cd '' @ [CHR 0x27] @ dir @ [CHR 0x27] @ '' && '' @ cmd"

text \<open>
  cmd/root.go, lines 220 and 221 (and 329 and 330 for a worker added later): the pane
  gets its title and the keys that change to the worktree and start the assistant.
\<close>

definition startWorker :: "config \<Rightarrow> string \<Rightarrow> string \<Rightarrow> int \<Rightarrow> action list" where
  "startWorker cfg paneID dir workerNum =
     [SetPaneTitle paneID (''worker-'' @ itoa workerNum),
      SendKeys paneID (launchKeys dir (CLIType cfg))]"

text \<open>
  The revision with one window for each worker (part_001, lines 325 to 333, and 167 to
  175 for a worker added later): the window is created in the worktree under the name
  \<^verbatim>\<open>worker-N\<close>, and the keys that start the assistant go to \<^verbatim>\<open>session:worker-N\<close>.
  The name of the window and the keys sent:
\<close>

definition startWindowWorker :: "config \<Rightarrow> int \<Rightarrow> string \<times> action list" where
  "startWindowWorker cfg workerNum =
     (let name = ''worker-'' @ itoa workerNum;
          target = Session cfg @ '':'' @ name
      in (name, [SendKeys target (CLIType cfg)]))"

section \<open>The specification's reading of the pattern matcher\<close>

text \<open>
  The phrases of the specification, written independently of the matcher.  A phrase
  occurs at position \<open>i\<close> of a text when the text continues there with the phrase, up to
  case folding; a text contains a phrase when it occurs at some position.
\<close>

definition occursAt :: "gostring \<Rightarrow> gostring \<Rightarrow> nat \<Rightarrow> bool" where
  "occursAt p txt i =
     (i + length p \<le> length txt \<and> map foldRune (take (length p) (drop i txt)) = map foldRune p)"

definition containsFold :: "gostring \<Rightarrow> gostring \<Rightarrow> bool" where
  "containsFold p txt = list_ex (occursAt p txt) [0 ..< Suc (length txt)]"

text \<open>
  ``\<open>p\<close> followed within \<open>n\<close> characters by \<open>q\<close>'': at most \<open>n\<close> characters stand between
  an occurrence of \<open>p\<close> and an occurrence of \<open>q\<close>.
\<close>

definition followedWithin :: "gostring \<Rightarrow> nat \<Rightarrow> gostring \<Rightarrow> gostring \<Rightarrow> bool" where
  "followedWithin p n q txt =
     list_ex (\<lambda>i. occursAt p txt i \<and>
                list_ex (\<lambda>k. occursAt q txt (i + length p + k)) [0 ..< Suc n])
       [0 ..< Suc (length txt)]"

text \<open>The same, with no line break among the characters in between.\<close>

definition followedOnLine :: "gostring \<Rightarrow> nat \<Rightarrow> gostring \<Rightarrow> gostring \<Rightarrow> bool" where
  "followedOnLine p n q txt =
     list_ex (\<lambda>i. occursAt p txt i \<and>
                list_ex (\<lambda>k. 10 \<notin> set (take k (drop (i + length p) txt)) \<and>
                             occursAt q txt (i + length p + k)) [0 ..< Suc n])
       [0 ..< Suc (length txt)]"

text \<open>The three trigger phrases as the specification words them.\<close>

definition statedHasError :: "gostring \<Rightarrow> bool" where
  "statedHasError txt =
     (containsFold (runes ''exceeded your usage limit'') txt \<or>
      followedWithin (runes ''usage limit'') 60 (runes ''try again after'') txt \<or>
      followedWithin (runes ''rate limit'') 60 (runes ''retry after'') txt)"

text \<open>The three trigger phrases as the pattern has them.\<close>

definition triggerPhrase :: "gostring \<Rightarrow> bool" where
  "triggerPhrase txt =
     (containsFold (runes ''exceeded your usage limit'') txt \<or>
      followedOnLine (runes ''usage limits'') 60 (runes ''try again after'') txt \<or>
      followedOnLine (runes ''rate limit'') 60 (runes ''retry after'') txt)"

text \<open>
  The duration phrases.  \<open>digitsAt txt i\<close> is the run of decimal digits that starts at
  position \<open>i\<close>.  \<open>hoursPhraseAt txt i\<close> is the digit string \<open>X\<close> when the phrase
  ``in \<open>X\<close> hour'' stands at position \<open>i\<close> (up to case), \<open>minutesPhraseAt txt i\<close> the digit
  string \<open>Y\<close> when ``\<open>Y\<close> minute'' stands there, and \<open>utcPhraseAt txt i\<close> the pair of digit
  strings when ``after \<open>HH\<close>:\<open>MM\<close> UTC'' stands there.
\<close>

definition digitsAt :: "gostring \<Rightarrow> nat \<Rightarrow> gostring" where
  "digitsAt txt i = takeWhile (\<lambda>r. 48 \<le> r \<and> r \<le> 57) (drop i txt)"

definition hoursPhraseAt :: "gostring \<Rightarrow> nat \<Rightarrow> gostring option" where
  "hoursPhraseAt txt i =
     (let xs = digitsAt txt (i + 3)
      in if occursAt (runes ''in '') txt i \<and> xs \<noteq> [] \<and>
            occursAt (runes '' hour'') txt (i + 3 + length xs)
         then Some xs else None)"

definition minutesPhraseAt :: "gostring \<Rightarrow> nat \<Rightarrow> gostring option" where
  "minutesPhraseAt txt i =
     (let ys = digitsAt txt i
      in if ys \<noteq> [] \<and> occursAt (runes '' minute'') txt (i + length ys)
         then Some ys else None)"

definition utcPhraseAt :: "gostring \<Rightarrow> nat \<Rightarrow> (gostring \<times> gostring) option" where
  "utcPhraseAt txt i =
     (let hs = digitsAt txt (i + 6);
          ms = digitsAt txt (i + 6 + length hs + 1)
      in if occursAt (runes ''after '') txt i \<and> hs \<noteq> [] \<and>
            occursAt (runes '':'') txt (i + 6 + length hs) \<and> ms \<noteq> [] \<and>
            occursAt (runes '' UTC'') txt (i + 6 + length hs + 1 + length ms)
         then Some (hs, ms) else None)"

text \<open>The leftmost phrase of a text: the value of \<open>f\<close> at the first position where it has one.\<close>

definition leftmost :: "(nat \<Rightarrow> 'a option) \<Rightarrow> gostring \<Rightarrow> 'a option" where
  "leftmost f txt =
     (case filter (\<lambda>i. f i \<noteq> None) [0 ..< Suc (length txt)] of [] \<Rightarrow> None | i # js \<Rightarrow> f i)"

text \<open>The number a digit string writes.\<close>

definition number :: "gostring \<Rightarrow> int" where
  "number ds = decimal 0 ds"

text \<open>The minutes of the leftmost phrase ``\<open>Y\<close> minute'', or 0 when the text has none.\<close>

definition minutesOf :: "gostring \<Rightarrow> int" where
  "minutesOf txt = (case leftmost (minutesPhraseAt txt) txt of None \<Rightarrow> 0 | Some ys \<Rightarrow> number ys)"

text \<open>No phrase ``in \<open>X\<close> hour'' of the text has \<open>X \<ge> 1\<close>.\<close>

definition noPositiveHours :: "gostring \<Rightarrow> bool" where
  "noPositiveHours txt =
     list_all (\<lambda>i. case hoursPhraseAt txt i of None \<Rightarrow> True | Some xs \<Rightarrow> number xs = 0)
       [0 ..< Suc (length txt)]"

text \<open>
  What the UTC wall clock shows at a time, as nanoseconds since midnight, and the reading
  \<open>h\<close>:\<open>m\<close>:00 of the wall clock.
\<close>

definition timeOfDay :: "gotime \<Rightarrow> int" where
  "timeOfDay t = t mod dayNanos"

definition wallClock :: "int \<Rightarrow> int \<Rightarrow> int" where
  "wallClock h m = (h * 3600 + m * 60) * Second"

text \<open>
  The nanoseconds from \<open>now\<close> to the wall-clock time \<open>h\<close>:\<open>m\<close>:00 of today if that is
  still ahead, else to the same time on the next day.  For a time of day (\<open>h < 24\<close>,
  \<open>m < 60\<close>) this is the next time, strictly after \<open>now\<close>, at which the UTC wall clock
  shows \<open>h\<close>:\<open>m\<close>:00; \<open>h\<close>:\<open>m\<close>:00 of today with a larger \<open>h\<close> or \<open>m\<close> is the
  moment \<open>h\<close> hours and \<open>m\<close> minutes after the midnight that starts today.
\<close>

definition untilNext :: "gotime \<Rightarrow> int \<Rightarrow> int \<Rightarrow> int" where
  "untilNext now h m =
     (let tod = now mod dayNanos;
          at = (h * 3600 + m * 60) * Second
      in if tod < at then at - tod else at + dayNanos - tod)"

text \<open>
  One usage-limit event at a time, read off the actions: a detection is logged only when
  no wait is in progress, and a resume is sent only when one is.
\<close>

fun oneAtATime :: "bool \<Rightarrow> action list \<Rightarrow> bool" where
  "oneAtATime active [] = True"
| "oneAtATime active (Logf f args # as) =
     (if f = hitFormat then \<not> active \<and> oneAtATime True as else oneAtATime active as)"
| "oneAtATime active (SendKeys target keys # as) = (active \<and> oneAtATime False as)"
| "oneAtATime active (SetPaneTitle target title # as) = oneAtATime active as"
| "oneAtATime active (RenameWindow target name # as) = oneAtATime active as"

text \<open>The points between the log line of a detection and the resume.\<close>

fun waiting :: "point \<Rightarrow> bool" where
  "waiting (AtDeadlineClock totalSecs) = True"
| "waiting (AtLoopClock deadline) = True"
| "waiting (AtWaitSelect deadline) = True"
| "waiting AtHasSession = True"
| "waiting p = False"

text \<open>The point at which a detection has just been made.\<close>

fun detecting :: "point \<Rightarrow> bool" where
  "detecting (AtExtractClock content) = True"
| "detecting p = False"

text \<open>The flag \<^verbatim>\<open>detected\<close> is set exactly from a detection to its resume.\<close>

definition cycleInv :: "wstate \<Rightarrow> bool" where
  "cycleInv st =
     ((at st = AtSelect \<or> at st = AtCapture \<longrightarrow> \<not> detected st) \<and>
      (detecting (at st) \<or> waiting (at st) \<longrightarrow> detected st))"

text \<open>The deadline of a point of the waiting loop.\<close>

fun deadlineAt :: "point \<Rightarrow> gotime option" where
  "deadlineAt (AtLoopClock deadline) = Some deadline"
| "deadlineAt (AtWaitSelect deadline) = Some deadline"
| "deadlineAt p = None"

text \<open>The default configuration of internal/config.\<close>

definition defaultConfig :: config where
  "defaultConfig =
     \<lparr>Num = 4, Session = ''claude-swarm'', BaseBranch = '''',
      CLIType = ''claude,claude,claude,gemini'', CLIFlags = '''', AddMode = False,
      ResumeBufferSec = 120, MonitorInterval = 30, WorktreePrefix = ''.wt''\<rparr>"

text \<open>
  The selector of the specification: every worker of the failing type, with or without a
  model, becomes the fallback.
\<close>

definition replaced :: "string \<Rightarrow> string \<Rightarrow> string list \<Rightarrow> string list" where
  "replaced name fallback workers =
     map (\<lambda>worker. if fst (parseWorker worker) = name then fallback else worker) workers"

definition brokenGemini :: outside where
  "brokenGemini =
     \<lparr>geminiProbe = \<lparr>failed = True, out = ''ReferenceError: File is not defined'', timedOut = False\<rparr>,
      codexProbe = \<lparr>failed = False, out = '''', timedOut = False\<rparr>,
      onPath = (\<lambda>name. name = ''claude'' \<or> name = ''gemini'')\<rparr>"

text \<open>The longest repetition that \<open>Rep c lo hi\<close> can read at the head of \<open>s\<close>.\<close>

definition repTop :: "cls \<Rightarrow> nat option \<Rightarrow> gostring \<Rightarrow> nat" where
  "repTop c hi s = (case hi of None \<Rightarrow> length (takeWhile (inClass c) s)
                    | Some h \<Rightarrow> min (length (takeWhile (inClass c) s)) h)"

text \<open>A pattern that matches no text that starts with a digit.\<close>

definition noDigitStart :: "re \<Rightarrow> bool" where
  "noDigitStart b = (\<forall>s. s \<noteq> [] \<and> inClass Digit (hd s) \<longrightarrow> rmatch b s = [])"

section \<open>Properties\<close>

subsection \<open>The matcher\<close>

lemma hasPrefixFold_iff:
  "hasPrefixFold p s \<longleftrightarrow>
   length p \<le> length s \<and> map foldRune (take (length p) s) = map foldRune p"
  by (induction p s rule: hasPrefixFold.induct) (auto simp: eqFold_def)

lemma MatchString_iff: "MatchString r s \<longleftrightarrow> (\<exists>i\<le>length s. rmatch r (drop i s) \<noteq> [])"
proof (induction s)
  case Nil
  then show ?case by simp
next
  case (Cons x xs)
  have "(\<exists>i\<le>length (x # xs). rmatch r (drop i (x # xs)) \<noteq> []) \<longleftrightarrow>
        rmatch r (x # xs) \<noteq> [] \<or> (\<exists>i\<le>length xs. rmatch r (drop i xs) \<noteq> [])"
  proof
    assume "\<exists>i\<le>length (x # xs). rmatch r (drop i (x # xs)) \<noteq> []"
    then obtain i where i: "i \<le> length (x # xs)" "rmatch r (drop i (x # xs)) \<noteq> []" by blast
    show "rmatch r (x # xs) \<noteq> [] \<or> (\<exists>i\<le>length xs. rmatch r (drop i xs) \<noteq> [])"
    proof (cases i)
      case 0
      with i show ?thesis by simp
    next
      case (Suc j)
      with i have "j \<le> length xs" "rmatch r (drop j xs) \<noteq> []" by simp_all
      then show ?thesis by blast
    qed
  next
    assume "rmatch r (x # xs) \<noteq> [] \<or> (\<exists>i\<le>length xs. rmatch r (drop i xs) \<noteq> [])"
    then show "\<exists>i\<le>length (x # xs). rmatch r (drop i (x # xs)) \<noteq> []"
    proof
      assume "rmatch r (x # xs) \<noteq> []"
      then have "0 \<le> length (x # xs) \<and> rmatch r (drop 0 (x # xs)) \<noteq> []" by simp
      then show ?thesis by blast
    next
      assume "\<exists>i\<le>length xs. rmatch r (drop i xs) \<noteq> []"
      then obtain j where "j \<le> length xs" "rmatch r (drop j xs) \<noteq> []" by blast
      then have "Suc j \<le> length (x # xs) \<and> rmatch r (drop (Suc j) (x # xs)) \<noteq> []" by simp
      then show ?thesis by blast
    qed
  qed
  with Cons show ?case by simp
qed

lemma rmatch_Lit_ne: "rmatch (Lit p) s \<noteq> [] \<longleftrightarrow> hasPrefixFold p s"
  by simp

lemma rmatch_Alt_ne: "rmatch (Alt a b) s \<noteq> [] \<longleftrightarrow> rmatch a s \<noteq> [] \<or> rmatch b s \<noteq> []"
  by simp

lemma rmatch_Grp_ne: "rmatch (Grp a) s \<noteq> [] \<longleftrightarrow> rmatch a s \<noteq> []"
  by simp

lemma rmatch_Seq_ne:
  "rmatch (Seq a b) s \<noteq> [] \<longleftrightarrow> (\<exists>m\<in>set (rmatch a s). rmatch b (snd m) \<noteq> [])"
proof -
  have "rmatch (Seq a b) s =
        concat (map (\<lambda>m. map (\<lambda>m2. (fst m @ fst m2, snd m2)) (rmatch b (snd m))) (rmatch a s))"
    by (simp add: case_prod_unfold)
  then show ?thesis by simp
qed

lemma rmatch_Seq_Lit_ne:
  "rmatch (Seq (Lit p) b) s \<noteq> [] \<longleftrightarrow> hasPrefixFold p s \<and> rmatch b (drop (length p) s) \<noteq> []"
  by (simp add: rmatch_Seq_ne del: rmatch.simps(3))

lemma set_rmatch_Rep:
  "set (rmatch (Rep c lo hi) s) = (\<lambda>k. ([], drop k s)) ` {k. lo \<le> k \<and> k \<le> repTop c hi s}"
  by (auto simp: repTop_def Let_def split: option.splits)

lemma rmatch_Seq_Rep_ne:
  "rmatch (Seq (Rep c lo hi) b) s \<noteq> [] \<longleftrightarrow>
   (\<exists>k. lo \<le> k \<and> k \<le> repTop c hi s \<and> rmatch b (drop k s) \<noteq> [])"
  unfolding rmatch_Seq_ne set_rmatch_Rep by auto

lemma le_length_takeWhile_iff:
  "k \<le> length (takeWhile P s) \<longleftrightarrow> k \<le> length s \<and> (\<forall>x\<in>set (take k s). P x)"
proof (induction s arbitrary: k)
  case Nil
  then show ?case by simp
next
  case (Cons a s)
  show ?case
  proof (cases k)
    case 0
    then show ?thesis by simp
  next
    case (Suc j)
    with Cons[of j] show ?thesis by auto
  qed
qed

lemma list_ex_upt: "list_ex P [0 ..< Suc n] \<longleftrightarrow> (\<exists>i\<le>n. P i)"
proof -
  have "list_ex P [0 ..< Suc n] \<longleftrightarrow> (\<exists>i<Suc n. P i)"
    unfolding list_ex_iff by (metis atLeastLessThan_iff set_upt zero_le)
  then show ?thesis by (simp only: less_Suc_eq_le)
qed

lemma occursAt_iff:
  "p \<noteq> [] \<or> i \<le> length txt \<Longrightarrow> occursAt p txt i \<longleftrightarrow> hasPrefixFold p (drop i txt)"
  by (cases "i \<le> length txt") (auto simp: occursAt_def hasPrefixFold_iff)

lemma repTop_AnyNotNL:
  "k \<le> repTop AnyNotNL (Some n) s \<longleftrightarrow> k \<le> n \<and> k \<le> length s \<and> 10 \<notin> set (take k s)"
proof -
  have "inClass AnyNotNL = (\<lambda>r. r \<noteq> 10)" by (rule ext) simp
  then show ?thesis
    by (auto simp: repTop_def le_length_takeWhile_iff)
qed

lemma followed_match:
  assumes "q \<noteq> []" and "i \<le> length txt"
  shows "rmatch (Seq (Lit p) (Seq (Rep AnyNotNL 0 (Some n)) (Lit q))) (drop i txt) \<noteq> [] \<longleftrightarrow>
         occursAt p txt i \<and>
         (\<exists>k\<le>n. 10 \<notin> set (take k (drop (i + length p) txt)) \<and> occursAt q txt (i + length p + k))"
proof -
  have q: "occursAt q txt j \<longleftrightarrow> hasPrefixFold q (drop j txt)" for j
    using assms(1) by (simp add: occursAt_iff)
  have len: "k \<le> length (drop (i + length p) txt)" if "occursAt q txt (i + length p + k)" for k
    using that by (simp add: occursAt_def) arith
  have "rmatch (Seq (Lit p) (Seq (Rep AnyNotNL 0 (Some n)) (Lit q))) (drop i txt) \<noteq> [] \<longleftrightarrow>
        hasPrefixFold p (drop i txt) \<and>
        (\<exists>k. k \<le> repTop AnyNotNL (Some n) (drop (i + length p) txt) \<and>
             hasPrefixFold q (drop (i + length p + k) txt))"
    by (simp only: rmatch_Seq_Lit_ne rmatch_Seq_Rep_ne rmatch_Lit_ne drop_drop add.commute
          add.left_commute le0 simp_thms)
  also have "\<dots> \<longleftrightarrow> occursAt p txt i \<and>
         (\<exists>k\<le>n. 10 \<notin> set (take k (drop (i + length p) txt)) \<and> occursAt q txt (i + length p + k))"
    using assms(2) len by (auto simp: repTop_AnyNotNL occursAt_iff q)
  finally show ?thesis .
qed

lemma runes_ne: "runes (c # cs) \<noteq> []"
  by (simp add: runes_def)

text \<open>
  The two executable predicates say what they should: a phrase occurs at a position when
  the text splits there into a part before, a part equal to the phrase up to case, and a
  rest.
\<close>

lemma occursAt_split:
  "occursAt p txt i \<longleftrightarrow>
   (\<exists>pre m post. txt = pre @ m @ post \<and> length pre = i \<and> map foldRune m = map foldRune p)"
proof
  assume o: "occursAt p txt i"
  then have le: "i + length p \<le> length txt"
    and eq: "map foldRune (take (length p) (drop i txt)) = map foldRune p"
    by (simp_all add: occursAt_def)
  have "txt = take i txt @ take (length p) (drop i txt) @ drop (length p) (drop i txt)"
    by (simp only: append_take_drop_id)
  moreover have "length (take i txt) = i" using le by simp
  ultimately show "\<exists>pre m post. txt = pre @ m @ post \<and> length pre = i \<and>
      map foldRune m = map foldRune p"
    using eq by blast
next
  assume "\<exists>pre m post. txt = pre @ m @ post \<and> length pre = i \<and> map foldRune m = map foldRune p"
  then obtain pre m post where t: "txt = pre @ m @ post" and i: "length pre = i"
    and eq: "map foldRune m = map foldRune p" by blast
  from eq have len: "length m = length p" by (rule map_eq_imp_length_eq)
  from t i len eq show "occursAt p txt i" by (simp add: occursAt_def)
qed

lemma containsFold_split:
  "containsFold p txt \<longleftrightarrow>
   (\<exists>pre m post. txt = pre @ m @ post \<and> map foldRune m = map foldRune p)"
proof -
  have "containsFold p txt \<longleftrightarrow> (\<exists>i\<le>length txt. occursAt p txt i)"
    unfolding containsFold_def by (rule list_ex_upt)
  also have "\<dots> \<longleftrightarrow> (\<exists>pre m post. txt = pre @ m @ post \<and> map foldRune m = map foldRune p)"
  proof
    assume "\<exists>i\<le>length txt. occursAt p txt i"
    then show "\<exists>pre m post. txt = pre @ m @ post \<and> map foldRune m = map foldRune p"
      unfolding occursAt_split by blast
  next
    assume "\<exists>pre m post. txt = pre @ m @ post \<and> map foldRune m = map foldRune p"
    then obtain pre m post where t: "txt = pre @ m @ post"
      and eq: "map foldRune m = map foldRune p" by blast
    from t eq have "occursAt p txt (length pre)" unfolding occursAt_split by blast
    moreover from t have "length pre \<le> length txt" by simp
    ultimately show "\<exists>i\<le>length txt. occursAt p txt i" by blast
  qed
  finally show ?thesis .
qed

subsection \<open>HasError\<close>

lemma HasError_iff:
  "HasError txt \<longleftrightarrow>
   (\<exists>i\<le>length txt.
      rmatch (Lit (runes ''exceeded your usage limit'')) (drop i txt) \<noteq> [] \<or>
      rmatch (Seq (Lit (runes ''usage limits''))
                (Seq (Rep AnyNotNL 0 (Some 60)) (Lit (runes ''try again after'')))) (drop i txt) \<noteq> [] \<or>
      rmatch (Seq (Lit (runes ''rate limit''))
                (Seq (Rep AnyNotNL 0 (Some 60)) (Lit (runes ''retry after'')))) (drop i txt) \<noteq> [])"
  unfolding HasError_def MatchString_iff errorRe_def rmatch_Grp_ne rmatch_Alt_ne ..

text \<open>
  Claim C1, as the code has it.  \<open>HasError\<close> is true exactly of the texts that contain, up
  to case, the phrase ``exceeded your usage limit'', or the phrase ``usage limits'' (in the
  plural) followed by at most 60 characters, none of them a line break, and then ``try
  again after'', or the phrase ``rate limit'' followed by at most 60 characters, none of
  them a line break, and then ``retry after''.  It is false of the empty text.
\<close>

theorem HasError_trigger: "HasError txt = triggerPhrase txt \<and> \<not> HasError []"
proof
  have "HasError txt \<longleftrightarrow>
     (\<exists>i\<le>length txt. occursAt (runes ''exceeded your usage limit'') txt i) \<or>
     (\<exists>i\<le>length txt. occursAt (runes ''usage limits'') txt i \<and>
         (\<exists>k\<le>60. 10 \<notin> set (take k (drop (i + length (runes ''usage limits'')) txt)) \<and>
            occursAt (runes ''try again after'') txt (i + length (runes ''usage limits'') + k))) \<or>
     (\<exists>i\<le>length txt. occursAt (runes ''rate limit'') txt i \<and>
         (\<exists>k\<le>60. 10 \<notin> set (take k (drop (i + length (runes ''rate limit'')) txt)) \<and>
            occursAt (runes ''retry after'') txt (i + length (runes ''rate limit'') + k)))"
    unfolding HasError_iff
    by (simp only: ex_disj_distrib conj_disj_distribL followed_match[OF runes_ne] rmatch_Lit_ne
          occursAt_iff[OF disjI1, OF runes_ne, symmetric] cong: conj_cong)
  then show "HasError txt = triggerPhrase txt"
    by (simp only: triggerPhrase_def containsFold_def followedOnLine_def list_ex_upt)
  show "\<not> HasError []"
    by code_simp
qed

text \<open>
  The claim as the specification words it fails on the code in two ways.  The text
  ``usage limit reached, try again after 5pm'' has the phrase ``usage limit'' followed
  within 60 characters by ``try again after'', and \<open>HasError\<close> is false of it: the pattern
  asks for ``usage limits''.  The text ``rate limit'', line break, ``retry after 5pm''
  has ``rate limit'' followed within 60 characters by ``retry after'', and \<open>HasError\<close> is
  false of it: the dot of the pattern does not match a line break.
\<close>

theorem HasError_stated_counterexample:
  "statedHasError (runes ''usage limit reached, try again after 5pm'') \<and>
   \<not> HasError (runes ''usage limit reached, try again after 5pm'') \<and>
   statedHasError (runes ''rate limit'' @ [10] @ runes ''retry after 5pm'') \<and>
   \<not> HasError (runes ''rate limit'' @ [10] @ runes ''retry after 5pm'')"
  by code_simp

subsection \<open>Numbers and digit runs\<close>

lemma decimal_mono: "0 \<le> acc \<Longrightarrow> isDigits ds \<Longrightarrow> 0 \<le> decimal acc ds"
  by (induction ds arbitrary: acc) auto

lemma Atoi_digits:
  assumes "ds \<noteq> []" and "isDigits ds"
  shows "Atoi ds = min maxInt (number ds)"
proof -
  obtain r rs where ds: "ds = r # rs" using assms(1) by (cases ds) auto
  with assms(2) have "48 \<le> r" by simp
  then have "r \<noteq> 43" "r \<noteq> 45" by auto
  with ds assms(2) show ?thesis
    unfolding Atoi_def number_def Let_def by simp 
qed

lemma isDigits_takeWhile: "isDigits (takeWhile (\<lambda>r. 48 \<le> r \<and> r \<le> 57) s)"
  by (induction s) auto

lemma isDigits_digitsAt: "isDigits (digitsAt txt i)"
  by (simp add: digitsAt_def isDigits_takeWhile)

lemma inClass_Digit: "inClass Digit = (\<lambda>r. 48 \<le> r \<and> r \<le> 57)"
  by (rule ext) simp

lemma rmatch_Grp_digits:
  "rmatch (Grp (Rep Digit 1 None)) s =
     map (\<lambda>k. ([Some (take k s)], drop k s)) (rev [1 ..< Suc (length (takeWhile (inClass Digit) s))])"
proof -
  have "k \<le> length s \<Longrightarrow> length s - length (drop k s) = k" for k by simp
  moreover have "length (takeWhile (inClass Digit) s) \<le> length s" by (rule length_takeWhile_le)
  ultimately show ?thesis by (auto simp: Let_def)
qed

lemma takeWhile_drop_digit:
  assumes "k < length (takeWhile P s)"
  shows "drop k s \<noteq> [] \<and> P (hd (drop k s))"
proof -
  have k: "k < length s" using assms length_takeWhile_le[of P s] by simp
  have "P (s ! k)"
    using assms by (metis nth_mem set_takeWhileD takeWhile_nth)
  with k show ?thesis by (simp add: hd_drop_conv_nth)
qed

lemma digits_then:
  assumes b: "noDigitStart b"
  shows "rmatch (Seq (Grp (Rep Digit 1 None)) b) s =
         (let ds = takeWhile (inClass Digit) s
          in if ds = [] then []
             else map (\<lambda>m. (Some ds # fst m, snd m)) (rmatch b (drop (length ds) s)))"
proof -
  let ?n = "length (takeWhile (inClass Digit) s)"
  let ?f = "\<lambda>k. map (\<lambda>m. (Some (take k s) # fst m, snd m)) (rmatch b (drop k s))"
  have seq: "rmatch (Seq (Grp (Rep Digit 1 None)) b) s = concat (map ?f (rev [1 ..< Suc ?n]))"
    unfolding rmatch.simps(3) rmatch_Grp_digits
    by (simp add: comp_def case_prod_unfold)
  have small: "?f k = []" if "k < ?n" for k
  proof -
    from takeWhile_drop_digit[OF that] b have "rmatch b (drop k s) = []"
      unfolding noDigitStart_def by blast
    then show ?thesis by simp
  qed
  show ?thesis
  proof (cases "?n = 0")
    case True
    then show ?thesis unfolding seq by simp
  next
    case False
    then have "1 \<le> ?n" by (simp add: Suc_le_eq)
    then have "rev [1 ..< Suc ?n] = ?n # rev [1 ..< ?n]" by simp
    moreover have "concat (map ?f (rev [1 ..< ?n])) = []"
      using small by (simp del: upt_Suc)
    moreover have "take ?n s = takeWhile (inClass Digit) s"
      by (metis takeWhile_eq_take)
    ultimately show ?thesis using False unfolding seq by (simp add: Let_def del: upt_Suc)
  qed
qed

lemma rmatch_Seq_Lit:
  "rmatch (Seq (Lit p) b) s = (if hasPrefixFold p s then rmatch b (drop (length p) s) else [])"
  by (simp add: case_prod_unfold)

lemma rmatch_opt_ne: "rmatch (Rep c 0 (Some 1)) s \<noteq> []"
  by (simp add: Let_def)

lemma rmatch_Rep_fst: "m \<in> set (rmatch (Rep c lo hi) s) \<Longrightarrow> fst m = []"
  by (auto simp: Let_def)

lemma rmatch_Lit_fst: "m \<in> set (rmatch (Lit p) s) \<Longrightarrow> fst m = []"
  by (auto split: if_splits)

lemma no_digit_prefix:
  assumes "p \<noteq> []" and "\<not> (48 \<le> foldRune (hd p) \<and> foldRune (hd p) \<le> 57)"
    and "s \<noteq> []" and "inClass Digit (hd s)"
  shows "\<not> hasPrefixFold p s"
proof -
  obtain a ps where p: "p = a # ps" using assms(1) by (cases p) auto
  obtain r rs where s: "s = r # rs" using assms(3) by (cases s) auto
  from assms(4) s have "foldRune r = r" "48 \<le> r" "r \<le> 57" by (auto simp: foldRune_def)
  with assms(2) p s show ?thesis by (auto simp: eqFold_def)
qed

lemma noDigitStart_Lit:
  assumes "p \<noteq> []" and "\<not> (48 \<le> foldRune (hd p) \<and> foldRune (hd p) \<le> 57)"
  shows "noDigitStart (Lit p)"
  unfolding noDigitStart_def using no_digit_prefix[OF assms] by simp

lemma noDigitStart_Seq_Lit:
  assumes "p \<noteq> []" and "\<not> (48 \<le> foldRune (hd p) \<and> foldRune (hd p) \<le> 57)"
  shows "noDigitStart (Seq (Lit p) b)"
  unfolding noDigitStart_def rmatch_Seq_Lit using no_digit_prefix[OF assms] by simp

lemma len_in: "length (runes ''in '') = 3" by (simp add: runes_def)
lemma len_hour: "length (runes '' hour'') = 5" by (simp add: runes_def)
lemma len_minute: "length (runes '' minute'') = 7" by (simp add: runes_def)
lemma len_after: "length (runes ''after '') = 6" by (simp add: runes_def)
lemma len_colon: "length (runes '':'') = 1" by (simp add: runes_def)
lemma len_utc: "length (runes '' UTC'') = 4" by (simp add: runes_def)
lemmas lens = len_in len_hour len_minute len_after len_colon len_utc

lemma rmatch_hoursRe:
  "rmatch hoursRe s =
     (let ds = takeWhile (inClass Digit) (drop 3 s)
      in if hasPrefixFold (runes ''in '') s \<and> ds \<noteq> [] \<and>
            hasPrefixFold (runes '' hour'') (drop (3 + length ds) s)
         then map (\<lambda>m. (Some ds # fst m, snd m))
                (rmatch (Rep (Chr 115) 0 (Some 1)) (drop (3 + length ds + 5) s))
         else [])"
proof -
  have nd: "noDigitStart (Seq (Lit (runes '' hour'')) (Rep (Chr 115) 0 (Some 1)))"
    by (rule noDigitStart_Seq_Lit) (simp_all add: runes_def foldRune_def)
  show ?thesis
    unfolding hoursRe_def rmatch_Seq_Lit digits_then[OF nd]
    by (simp add: Let_def lens add.assoc add.commute add.left_commute del: rmatch.simps)
qed

lemma rmatch_minsRe:
  "rmatch minsRe s =
     (let ds = takeWhile (inClass Digit) s
      in if ds \<noteq> [] \<and> hasPrefixFold (runes '' minute'') (drop (length ds) s)
         then map (\<lambda>m. (Some ds # fst m, snd m))
                (rmatch (Rep (Chr 115) 0 (Some 1)) (drop (length ds + 7) s))
         else [])"
proof -
  have nd: "noDigitStart (Seq (Lit (runes '' minute'')) (Rep (Chr 115) 0 (Some 1)))"
    by (rule noDigitStart_Seq_Lit) (simp_all add: runes_def foldRune_def)
  show ?thesis
    unfolding minsRe_def rmatch_Seq_Lit digits_then[OF nd]
    by (simp add: Let_def lens add.assoc add.commute add.left_commute del: rmatch.simps)
qed

lemma rmatch_utcTimeRe:
  "rmatch utcTimeRe s =
     (let hs = takeWhile (inClass Digit) (drop 6 s);
          ms = takeWhile (inClass Digit) (drop (6 + length hs + 1) s)
      in if hasPrefixFold (runes ''after '') s \<and> hs \<noteq> [] \<and>
            hasPrefixFold (runes '':'') (drop (6 + length hs) s) \<and> ms \<noteq> [] \<and>
            hasPrefixFold (runes '' UTC'') (drop (6 + length hs + 1 + length ms) s)
         then [([Some hs, Some ms], drop (6 + length hs + 1 + length ms + 4) s)]
         else [])"
proof -
  have nd1: "noDigitStart (Lit (runes '' UTC''))"
    by (rule noDigitStart_Lit) (simp_all add: runes_def foldRune_def)
  have nd2: "noDigitStart (Seq (Lit (runes '':'')) (Seq (Grp (Rep Digit 1 None)) (Lit (runes '' UTC''))))"
    by (rule noDigitStart_Seq_Lit) (simp_all add: runes_def foldRune_def)
  show ?thesis
    unfolding utcTimeRe_def rmatch_Seq_Lit digits_then[OF nd2] digits_then[OF nd1]
    by (simp add: Let_def lens add.assoc add.commute add.left_commute del: rmatch.simps(2-5))
qed

subsection \<open>The leftmost match\<close>

lemma upt_Suc_Suc: "[0 ..< Suc (Suc n)] = 0 # map Suc [0 ..< Suc n]"
proof -
  have "[0 ..< Suc (Suc n)] = 0 # [Suc 0 ..< Suc (Suc n)]"
    by (rule upt_conv_Cons) simp
  also have "[Suc 0 ..< Suc (Suc n)] = map Suc [0 ..< Suc n]"
    by (rule map_Suc_upt[symmetric])
  finally show ?thesis .
qed

lemma Find_first:
  "FindStringSubmatch r s =
     (case filter (\<lambda>i. rmatch r (drop i s) \<noteq> []) [0 ..< Suc (length s)] of
        [] \<Rightarrow> []
      | i # js \<Rightarrow> submatches (drop i s) (hd (rmatch r (drop i s))))"
proof (induction s)
  case Nil
  show ?case by (cases "rmatch r []") simp_all
next
  case (Cons x xs)
  have upt: "[0 ..< Suc (length (x # xs))] = 0 # map Suc [0 ..< Suc (length xs)]"
    by (simp only: list.size upt_Suc_Suc add_Suc_right add_0_right)
  show ?case
  proof (cases "rmatch r (x # xs)")
    case Nil
    then have "filter (\<lambda>i. rmatch r (drop i (x # xs)) \<noteq> []) [0 ..< Suc (length (x # xs))] =
               map Suc (filter (\<lambda>i. rmatch r (drop i xs) \<noteq> []) [0 ..< Suc (length xs)])"
      unfolding upt by (simp add: filter_map comp_def del: upt_Suc)
    with Nil Cons.IH show ?thesis
      by (simp split: list.splits del: upt_Suc)
  next
    case (Cons m ms)
    then show ?thesis unfolding upt by (simp del: upt_Suc)
  qed
qed

lemma Find_leftmost:
  assumes ne: "\<And>i. i \<le> length txt \<Longrightarrow> (rmatch r (drop i txt) = [] \<longleftrightarrow> f i = None)"
    and cap: "\<And>i v. i \<le> length txt \<Longrightarrow> f i = Some v \<Longrightarrow>
                map (\<lambda>g. case g of None \<Rightarrow> [] | Some t \<Rightarrow> t) (fst (hd (rmatch r (drop i txt)))) = g v"
  shows "leftmost f txt = None \<Longrightarrow> FindStringSubmatch r txt = []"
    and "leftmost f txt = Some v \<Longrightarrow> \<exists>m0. FindStringSubmatch r txt = m0 # g v"
proof -
  let ?is = "filter (\<lambda>i. f i \<noteq> None) [0 ..< Suc (length txt)]"
  have flt: "filter (\<lambda>i. rmatch r (drop i txt) \<noteq> []) [0 ..< Suc (length txt)] = ?is"
    by (rule filter_cong[OF refl]) (simp add: ne less_Suc_eq_le del: upt_Suc)
  have mem: "i \<le> length txt \<and> f i \<noteq> None" if "?is = i # js" for i js
  proof -
    have "i \<in> set ?is" by (subst that) simp
    then show ?thesis unfolding set_filter by (simp add: less_Suc_eq_le del: upt_Suc)
  qed
  {
    assume none: "leftmost f txt = None"
    have "?is = []"
    proof (cases ?is)
      case Nil
      then show ?thesis .
    next
      case (Cons i js)
      with mem[OF Cons] none show ?thesis
        unfolding leftmost_def by (simp del: upt_Suc)
    qed
    then show "FindStringSubmatch r txt = []"
      unfolding Find_first flt by (simp del: upt_Suc)
  }
  {
    assume v: "leftmost f txt = Some v"
    then obtain i js where eq: "?is = i # js" and fi: "f i = Some v"
      unfolding leftmost_def by (cases ?is) (simp_all del: upt_Suc)
    from mem[OF eq] have "i \<le> length txt" by simp
    from cap[OF this fi] show "\<exists>m0. FindStringSubmatch r txt = m0 # g v"
      unfolding Find_first flt eq by (simp add: submatches_def)
  }
qed

subsection \<open>The duration phrases and the patterns\<close>

lemma digitsAt_drop: "digitsAt txt (i + j) = takeWhile (inClass Digit) (drop j (drop i txt))"
  by (simp add: digitsAt_def inClass_Digit add.commute)

lemma digitsAt_drop0: "digitsAt txt i = takeWhile (inClass Digit) (drop i txt)"
  by (simp add: digitsAt_def inClass_Digit)

lemma occursAt_drop:
  "p \<noteq> [] \<Longrightarrow> occursAt p txt (i + j) \<longleftrightarrow> hasPrefixFold p (drop j (drop i txt))"
  by (simp add: occursAt_iff add.commute)

lemma occursAt_drop0:
  "p \<noteq> [] \<Longrightarrow> occursAt p txt i \<longleftrightarrow> hasPrefixFold p (drop i txt)"
  by (simp add: occursAt_iff)

lemma hours_link:
  "rmatch hoursRe (drop i txt) =
     (case hoursPhraseAt txt i of
        None \<Rightarrow> []
      | Some xs \<Rightarrow> map (\<lambda>m. (Some xs # fst m, snd m))
                    (rmatch (Rep (Chr 115) 0 (Some 1)) (drop (3 + length xs + 5) (drop i txt))))"
proof -
  have a: "digitsAt txt (i + 3) = takeWhile (inClass Digit) (drop 3 (drop i txt))"
    by (rule digitsAt_drop)
  have b: "occursAt (runes ''in '') txt i = hasPrefixFold (runes ''in '') (drop i txt)"
    by (simp add: occursAt_drop0 runes_ne)
  have c: "occursAt (runes '' hour'') txt (i + 3 + n) =
           hasPrefixFold (runes '' hour'') (drop (3 + n) (drop i txt))" for n
  proof -
    have e: "i + 3 + n = i + (3 + n)" by simp
    show ?thesis unfolding e by (rule occursAt_drop) (rule runes_ne)
  qed
  show ?thesis
    unfolding hoursPhraseAt_def rmatch_hoursRe a b c Let_def
    by (simp del: rmatch.simps drop_drop)
qed

lemma mins_link:
  "rmatch minsRe (drop i txt) =
     (case minutesPhraseAt txt i of
        None \<Rightarrow> []
      | Some ys \<Rightarrow> map (\<lambda>m. (Some ys # fst m, snd m))
                    (rmatch (Rep (Chr 115) 0 (Some 1)) (drop (length ys + 7) (drop i txt))))"
proof -
  have a: "digitsAt txt i = takeWhile (inClass Digit) (drop i txt)"
    by (rule digitsAt_drop0)
  have c: "occursAt (runes '' minute'') txt (i + n) =
           hasPrefixFold (runes '' minute'') (drop n (drop i txt))" for n
    by (rule occursAt_drop) (rule runes_ne)
  show ?thesis
    unfolding minutesPhraseAt_def rmatch_minsRe a c Let_def
    by (simp del: rmatch.simps drop_drop)
qed

lemma utc_link:
  "rmatch utcTimeRe (drop i txt) =
     (case utcPhraseAt txt i of
        None \<Rightarrow> []
      | Some (hs, ms) \<Rightarrow>
          [([Some hs, Some ms], drop (6 + length hs + 1 + length ms + 4) (drop i txt))])"
proof -
  have a: "digitsAt txt (i + 6) = takeWhile (inClass Digit) (drop 6 (drop i txt))"
    by (rule digitsAt_drop)
  have a': "digitsAt txt (i + 6 + n + 1) = takeWhile (inClass Digit) (drop (6 + n + 1) (drop i txt))" for n
  proof -
    have e: "i + 6 + n + 1 = i + (6 + n + 1)" by simp
    show ?thesis unfolding e by (rule digitsAt_drop)
  qed
  have b: "occursAt (runes ''after '') txt i = hasPrefixFold (runes ''after '') (drop i txt)"
    by (simp add: occursAt_drop0 runes_ne)
  have c: "occursAt (runes '':'') txt (i + 6 + n) =
           hasPrefixFold (runes '':'') (drop (6 + n) (drop i txt))" for n
  proof -
    have e: "i + 6 + n = i + (6 + n)" by simp
    show ?thesis unfolding e by (rule occursAt_drop) (rule runes_ne)
  qed
  have d: "occursAt (runes '' UTC'') txt (i + 6 + n + 1 + k) =
           hasPrefixFold (runes '' UTC'') (drop (6 + n + 1 + k) (drop i txt))" for n k
  proof -
    have e: "i + 6 + n + 1 + k = i + (6 + n + 1 + k)" by simp
    show ?thesis unfolding e by (rule occursAt_drop) (rule runes_ne)
  qed
  show ?thesis
    unfolding utcPhraseAt_def rmatch_utcTimeRe a a' b c d Let_def
    by (simp del: rmatch.simps drop_drop)
qed

lemma opt_hd_fst: "fst (hd (rmatch (Rep c 0 (Some 1)) s)) = []"
  using rmatch_Rep_fst[of "hd (rmatch (Rep c 0 (Some 1)) s)" c 0 "Some 1" s] rmatch_opt_ne[of c s]
  by simp

lemma Find_hours:
  shows "leftmost (hoursPhraseAt txt) txt = None \<Longrightarrow> FindStringSubmatch hoursRe txt = []"
    and "leftmost (hoursPhraseAt txt) txt = Some xs \<Longrightarrow>
         \<exists>m0. FindStringSubmatch hoursRe txt = [m0, xs]"
proof -
  have ne: "rmatch hoursRe (drop i txt) = [] \<longleftrightarrow> hoursPhraseAt txt i = None" for i
    unfolding hours_link using rmatch_opt_ne by (simp split: option.splits del: rmatch.simps)
  have cap: "map (\<lambda>g. case g of None \<Rightarrow> [] | Some t \<Rightarrow> t) (fst (hd (rmatch hoursRe (drop i txt)))) = [v]"
    if "hoursPhraseAt txt i = Some v" for i v
    unfolding hours_link that using rmatch_opt_ne opt_hd_fst
    by (simp add: hd_map del: rmatch.simps)
  show "leftmost (hoursPhraseAt txt) txt = None \<Longrightarrow> FindStringSubmatch hoursRe txt = []"
    by (rule Find_leftmost(1)[where g = "\<lambda>v. [v]"]) (simp_all add: ne cap)
  show "leftmost (hoursPhraseAt txt) txt = Some xs \<Longrightarrow>
         \<exists>m0. FindStringSubmatch hoursRe txt = [m0, xs]"
    by (rule Find_leftmost(2)[where g = "\<lambda>v. [v]"]) (simp_all add: ne cap)
qed

lemma Find_mins:
  shows "leftmost (minutesPhraseAt txt) txt = None \<Longrightarrow> FindStringSubmatch minsRe txt = []"
    and "leftmost (minutesPhraseAt txt) txt = Some ys \<Longrightarrow>
         \<exists>m0. FindStringSubmatch minsRe txt = [m0, ys]"
proof -
  have ne: "rmatch minsRe (drop i txt) = [] \<longleftrightarrow> minutesPhraseAt txt i = None" for i
    unfolding mins_link using rmatch_opt_ne by (simp split: option.splits del: rmatch.simps)
  have cap: "map (\<lambda>g. case g of None \<Rightarrow> [] | Some t \<Rightarrow> t) (fst (hd (rmatch minsRe (drop i txt)))) = [v]"
    if "minutesPhraseAt txt i = Some v" for i v
    unfolding mins_link that using rmatch_opt_ne opt_hd_fst
    by (simp add: hd_map del: rmatch.simps)
  show "leftmost (minutesPhraseAt txt) txt = None \<Longrightarrow> FindStringSubmatch minsRe txt = []"
    by (rule Find_leftmost(1)[where g = "\<lambda>v. [v]"]) (simp_all add: ne cap)
  show "leftmost (minutesPhraseAt txt) txt = Some ys \<Longrightarrow>
         \<exists>m0. FindStringSubmatch minsRe txt = [m0, ys]"
    by (rule Find_leftmost(2)[where g = "\<lambda>v. [v]"]) (simp_all add: ne cap)
qed

lemma Find_utc:
  shows "leftmost (utcPhraseAt txt) txt = None \<Longrightarrow> FindStringSubmatch utcTimeRe txt = []"
    and "leftmost (utcPhraseAt txt) txt = Some (hs, ms) \<Longrightarrow>
         \<exists>m0. FindStringSubmatch utcTimeRe txt = [m0, hs, ms]"
proof -
  have ne: "rmatch utcTimeRe (drop i txt) = [] \<longleftrightarrow> utcPhraseAt txt i = None" for i
    unfolding utc_link by (simp split: option.splits)
  have cap: "map (\<lambda>g. case g of None \<Rightarrow> [] | Some t \<Rightarrow> t) (fst (hd (rmatch utcTimeRe (drop i txt)))) =
             [fst v, snd v]"
    if "utcPhraseAt txt i = Some v" for i v
    unfolding utc_link that by (simp add: case_prod_unfold)
  show "leftmost (utcPhraseAt txt) txt = None \<Longrightarrow> FindStringSubmatch utcTimeRe txt = []"
    by (rule Find_leftmost(1)[where g = "\<lambda>v. [fst v, snd v]"]) (simp_all add: ne cap)
  assume "leftmost (utcPhraseAt txt) txt = Some (hs, ms)"
  from Find_leftmost(2)[where g = "\<lambda>v. [fst v, snd v]", OF _ _ this, of utcTimeRe]
  show "\<exists>m0. FindStringSubmatch utcTimeRe txt = [m0, hs, ms]"
    by (simp add: ne cap)
qed

text \<open>
  What \<open>hoursPhraseAt\<close> says, in terms of the text: the text splits at the position into
  a part before, ``in '' up to case, the digits, `` hour'' up to case, and a rest.
\<close>

lemma takeWhile_digits_append:
  assumes "isDigits xs" and "b \<noteq> []" and "\<not> (48 \<le> hd b \<and> hd b \<le> 57)"
  shows "takeWhile (\<lambda>r. 48 \<le> r \<and> r \<le> 57) (xs @ b @ post) = xs"
  using assms by (induction xs) (auto simp: neq_Nil_conv)

lemma fold_space: "foldRune r = 32 \<longleftrightarrow> r = 32"
  by (auto simp: foldRune_def)

lemma hour_head:
  assumes "map foldRune b = map foldRune (runes '' hour'')"
  shows "b \<noteq> [] \<and> \<not> (48 \<le> hd b \<and> hd b \<le> 57)"
proof -
  from assms obtain r rs where b: "b = r # rs" by (cases b) (auto simp: runes_def)
  with assms have "foldRune r = 32" by (simp add: runes_def foldRune_def)
  then have "r = 32" by (simp add: fold_space)
  with b show ?thesis by simp
qed

lemma hoursPhraseAt_split:
  "hoursPhraseAt txt i = Some xs \<longleftrightarrow>
   (\<exists>pre a b post. txt = pre @ a @ xs @ b @ post \<and> length pre = i \<and>
      map foldRune a = map foldRune (runes ''in '') \<and> xs \<noteq> [] \<and> isDigits xs \<and>
      map foldRune b = map foldRune (runes '' hour''))"
proof
  assume h: "hoursPhraseAt txt i = Some xs"
  then have xs: "xs = digitsAt txt (i + 3)" and ne: "xs \<noteq> []"
    and o1: "occursAt (runes ''in '') txt i"
    and o2: "occursAt (runes '' hour'') txt (i + 3 + length xs)"
    by (auto simp: hoursPhraseAt_def Let_def split: if_splits)
  from o1 obtain pre a r1 where t1: "txt = pre @ a @ r1" and i: "length pre = i"
    and a: "map foldRune a = map foldRune (runes ''in '')"
    unfolding occursAt_split by blast
  from a have la: "length a = 3" using map_eq_imp_length_eq[OF a] by (simp add: runes_def)
  from t1 i la have d: "drop (i + 3) txt = r1" by simp
  have tk: "take (length xs) r1 = xs"
    using xs d by (simp only: digitsAt_def) (metis takeWhile_eq_take)
  from o2 obtain pre2 b post where t2: "txt = pre2 @ b @ post" and i2: "length pre2 = i + 3 + length xs"
    and b: "map foldRune b = map foldRune (runes '' hour'')"
    unfolding occursAt_split by blast
  have "drop (i + 3 + length xs) txt = b @ post" using t2 i2 by simp
  moreover have "drop (i + 3 + length xs) txt = drop (length xs) (drop (i + 3) txt)"
    by (simp only: drop_drop add.commute)
  ultimately have dr: "drop (length xs) r1 = b @ post" by (simp only: d)
  have "r1 = take (length xs) r1 @ drop (length xs) r1" by (simp only: append_take_drop_id)
  then have "r1 = xs @ b @ post" by (simp only: tk dr)
  with t1 have "txt = pre @ a @ xs @ b @ post" by simp
  moreover have "isDigits xs" unfolding xs by (rule isDigits_digitsAt)
  ultimately show "\<exists>pre a b post. txt = pre @ a @ xs @ b @ post \<and> length pre = i \<and>
      map foldRune a = map foldRune (runes ''in '') \<and> xs \<noteq> [] \<and> isDigits xs \<and>
      map foldRune b = map foldRune (runes '' hour'')"
    using i a ne b by blast
next
  assume "\<exists>pre a b post. txt = pre @ a @ xs @ b @ post \<and> length pre = i \<and>
      map foldRune a = map foldRune (runes ''in '') \<and> xs \<noteq> [] \<and> isDigits xs \<and>
      map foldRune b = map foldRune (runes '' hour'')"
  then obtain pre a b post where t: "txt = pre @ a @ xs @ b @ post" and i: "length pre = i"
    and a: "map foldRune a = map foldRune (runes ''in '')" and ne: "xs \<noteq> []"
    and dg: "isDigits xs" and b: "map foldRune b = map foldRune (runes '' hour'')"
    by blast
  from a have la: "length a = 3" using map_eq_imp_length_eq[OF a] by (simp add: runes_def)
  have o1: "occursAt (runes ''in '') txt i"
    unfolding occursAt_split using t i a by blast
  from t i la have d: "drop (i + 3) txt = xs @ b @ post" by simp
  have xs: "digitsAt txt (i + 3) = xs"
    unfolding digitsAt_def d using hour_head[OF b] dg by (intro takeWhile_digits_append) simp_all
  have "txt = (pre @ a @ xs) @ b @ post" using t by simp
  moreover have "length (pre @ a @ xs) = i + 3 + length xs" using i la by simp
  ultimately have o2: "occursAt (runes '' hour'') txt (i + 3 + length xs)"
    unfolding occursAt_split using b by blast
  show "hoursPhraseAt txt i = Some xs"
    unfolding hoursPhraseAt_def Let_def xs using o1 o2 ne by simp
qed

subsection \<open>ExtractWaitSecs: the relative strategy\<close>

lemma leftmost_SomeD:
  assumes "leftmost f txt = Some v"
  shows "\<exists>i\<le>length txt. f i = Some v"
proof -
  let ?is = "filter (\<lambda>i. f i \<noteq> None) [0 ..< Suc (length txt)]"
  from assms obtain i js where eq: "?is = i # js" and fi: "f i = Some v"
    unfolding leftmost_def by (cases ?is) (simp_all del: upt_Suc)
  have "i \<in> set ?is" by (subst eq) simp
  then have "i \<le> length txt" unfolding set_filter by (simp add: less_Suc_eq_le del: upt_Suc)
  with fi show ?thesis by blast
qed

lemma hoursPhrase_digits: "hoursPhraseAt txt i = Some xs \<Longrightarrow> xs \<noteq> [] \<and> isDigits xs"
  unfolding hoursPhraseAt_def Let_def using isDigits_digitsAt by (auto split: if_splits)

lemma minutesPhrase_digits: "minutesPhraseAt txt i = Some xs \<Longrightarrow> xs \<noteq> [] \<and> isDigits xs"
  unfolding minutesPhraseAt_def Let_def using isDigits_digitsAt by (auto split: if_splits)

lemma utcPhrase_digits:
  "utcPhraseAt txt i = Some (hs, ms) \<Longrightarrow> hs \<noteq> [] \<and> isDigits hs \<and> ms \<noteq> [] \<and> isDigits ms"
  unfolding utcPhraseAt_def Let_def using isDigits_digitsAt by (auto split: if_splits)

lemma number_nonneg: "isDigits ds \<Longrightarrow> 0 \<le> number ds"
  unfolding number_def by (rule decimal_mono) simp_all

text \<open>The two readings of the relative strategy: hours and minutes of the leftmost phrases.\<close>

lemma relativeWait_phrases:
  "relativeWait txt =
     (let hours = (case leftmost (hoursPhraseAt txt) txt of
                     None \<Rightarrow> 0 | Some xs \<Rightarrow> min maxInt (number xs));
          mins = (case leftmost (minutesPhraseAt txt) txt of
                    None \<Rightarrow> 0 | Some ys \<Rightarrow> min maxInt (number ys))
      in if 0 < hours then int64 (hours * 3600 + mins * 60) else 3600)"
proof (cases "leftmost (hoursPhraseAt txt) txt")
  case None
  from Find_hours(1)[OF None] show ?thesis
    unfolding relativeWait_def by (simp add: None)
next
  case (Some xs)
  from Find_hours(2)[OF Some] obtain m0 where f: "FindStringSubmatch hoursRe txt = [m0, xs]" ..
  from leftmost_SomeD[OF Some] hoursPhrase_digits have "xs \<noteq> []" "isDigits xs" by blast+
  then have h: "Atoi xs = min maxInt (number xs)" by (rule Atoi_digits)
  show ?thesis
  proof (cases "leftmost (minutesPhraseAt txt) txt")
    case None
    from Find_mins(1)[OF None] show ?thesis
      unfolding relativeWait_def by (simp add: None Some f h)
  next
    case (Some ys)
    note ys = this
    from Find_mins(2)[OF ys] obtain n0 where g: "FindStringSubmatch minsRe txt = [n0, ys]" ..
    from leftmost_SomeD[OF ys] minutesPhrase_digits have "ys \<noteq> []" "isDigits ys" by blast+
    then have m: "Atoi ys = min maxInt (number ys)" by (rule Atoi_digits)
    show ?thesis
      unfolding relativeWait_def by (simp add: \<open>leftmost (hoursPhraseAt txt) txt = Some xs\<close> ys f g h m)
  qed
qed

lemma utcWait_None:
  "leftmost (utcPhraseAt txt) txt = None \<Longrightarrow> utcWait now txt = None"
  unfolding utcWait_def by (simp add: Find_utc(1))

lemma ExtractWaitSecs_no_utc:
  "leftmost (utcPhraseAt txt) txt = None \<Longrightarrow> ExtractWaitSecs now txt = relativeWait txt"
  unfolding ExtractWaitSecs_def by (simp add: utcWait_None)

lemma int64_id: "0 \<le> x \<Longrightarrow> x \<le> maxInt \<Longrightarrow> int64 x = x"
  unfolding int64_def maxInt_def by simp

text \<open>
  The relative strategy within the range of \<^verbatim>\<open>int\<close>.  For a text with no phrase
  ``after HH:MM UTC'', let \<open>X\<close> be the number of the leftmost phrase ``in \<open>X\<close> hour''
  and \<open>Y\<close> the number of the leftmost phrase ``\<open>Y\<close> minute'' (0 when there is none).
  If \<open>X = 0\<close> the result is the fallback 3600, whatever \<open>Y\<close> is; if \<open>X \<ge> 1\<close> and
  \<open>X * 3600 + Y * 60\<close> is at most the largest \<^verbatim>\<open>int\<close>, the result is
  \<open>X * 3600 + Y * 60\<close>.
\<close>

lemma relative_duration_in_range:
  assumes utc: "leftmost (utcPhraseAt txt) txt = None"
    and hrs: "leftmost (hoursPhraseAt txt) txt = Some xs"
    and fits: "number xs = 0 \<or> number xs * 3600 + minutesOf txt * 60 \<le> maxInt"
  shows "ExtractWaitSecs now txt =
         (if number xs = 0 then 3600 else number xs * 3600 + minutesOf txt * 60)"
proof (cases "number xs = 0")
  case True
  then show ?thesis
    unfolding ExtractWaitSecs_no_utc[OF utc] relativeWait_phrases hrs by (simp add: maxInt_def)
next
  case False
  with fits have fits': "number xs * 3600 + minutesOf txt * 60 \<le> maxInt" by simp
  from leftmost_SomeD[OF hrs] hoursPhrase_digits have "isDigits xs" by blast
  then have x0: "0 \<le> number xs" by (rule number_nonneg)
  have y0: "0 \<le> minutesOf txt"
  proof (cases "leftmost (minutesPhraseAt txt) txt")
    case None
    then show ?thesis by (simp add: minutesOf_def)
  next
    case (Some ys)
    from leftmost_SomeD[OF Some] minutesPhrase_digits have "isDigits ys" by blast
    then show ?thesis by (simp add: minutesOf_def Some number_nonneg)
  qed
  have x: "min maxInt (number xs) = number xs" using fits' x0 y0 by simp
  have y: "(case leftmost (minutesPhraseAt txt) txt of None \<Rightarrow> 0 | Some ys \<Rightarrow> min maxInt (number ys)) =
           minutesOf txt"
    using fits' x0 y0 unfolding minutesOf_def by (simp split: option.splits)
  have "0 \<le> number xs * 3600 + minutesOf txt * 60" using x0 y0 by simp
  then have w: "int64 (number xs * 3600 + minutesOf txt * 60) = number xs * 3600 + minutesOf txt * 60"
    using fits' by (rule int64_id)
  show ?thesis
    unfolding ExtractWaitSecs_no_utc[OF utc] relativeWait_phrases hrs option.case x y Let_def
    using x0 w False by simp
qed

lemma relative_duration_in_range_examples:
  "leftmost (utcPhraseAt (runes ''in 1 hours 30 minutes'')) (runes ''in 1 hours 30 minutes'') = None"
  "leftmost (hoursPhraseAt (runes ''in 1 hours 30 minutes'')) (runes ''in 1 hours 30 minutes'') =
     Some (runes ''1'')"
  "number (runes ''1'') = 1"
  "minutesOf (runes ''in 1 hours 30 minutes'') = 30"
  "leftmost (hoursPhraseAt (runes ''in 0 hours 999999999999999999 minutes''))
     (runes ''in 0 hours 999999999999999999 minutes'') = Some (runes ''0'')"
  "ExtractWaitSecs now (runes ''in 0 hours 999999999999999999 minutes'') = 3600"
  by code_simp+

text \<open>
  Claim C3 fails on the code.  The text ``in 2562047788015216 hours 30 minutes'' has no
  phrase ``after HH:MM UTC'', its phrase ``in \<open>X\<close> hours'' has \<open>X \<ge> 1\<close> and its phrase
  ``\<open>Y\<close> minutes'' has \<open>Y = 30\<close>, and the result is negative, not
  \<open>X * 3600 + Y * 60 = 9223372036854779400\<close>: \<^verbatim>\<open>hours*3600 + mins*60\<close> is computed
  in \<^verbatim>\<open>int\<close> and wraps around.
\<close>

theorem relative_duration_overflow:
  "leftmost (utcPhraseAt (runes ''in 2562047788015216 hours 30 minutes''))
     (runes ''in 2562047788015216 hours 30 minutes'') = None \<and>
   leftmost (hoursPhraseAt (runes ''in 2562047788015216 hours 30 minutes''))
     (runes ''in 2562047788015216 hours 30 minutes'') = Some (runes ''2562047788015216'') \<and>
   number (runes ''2562047788015216'') = 2562047788015216 \<and>
   minutesOf (runes ''in 2562047788015216 hours 30 minutes'') = 30 \<and>
   ExtractWaitSecs now (runes ''in 2562047788015216 hours 30 minutes'') = - 9223372036854772216"
  by code_simp

text \<open>The examples of the specification.\<close>

lemma ExtractWaitSecs_examples:
  "ExtractWaitSecs now (runes ''in 2 hours'') = 7200"
  "ExtractWaitSecs now (runes ''in 1 hours 30 minutes'') = 5400"
  "ExtractWaitSecs now (runes ''in 0 hours 45 minutes'') = 3600"
  "ExtractWaitSecs now (runes ''no duration here'') = 3600"
  "ExtractWaitSecs now (runes ''exceeded your usage limit'') = 3600"
  by code_simp+

lemma noPositiveHoursD:
  assumes "noPositiveHours txt" and "i \<le> length txt" and "hoursPhraseAt txt i = Some xs"
  shows "number xs = 0"
proof -
  from assms(2) have "i \<in> set [0 ..< Suc (length txt)]" by (simp del: upt_Suc)
  with assms(1) have "case hoursPhraseAt txt i of None \<Rightarrow> True | Some xs \<Rightarrow> number xs = 0"
    unfolding noPositiveHours_def list_all_iff by blast
  with assms(3) show ?thesis by simp
qed

text \<open>
  Claim C10.  For a text with no phrase ``after HH:MM UTC'' and no phrase ``in \<open>X\<close> hour''
  with \<open>X \<ge> 1\<close>, the result is the fallback 3600, whatever minutes phrase the text has.
\<close>

theorem minutes_only_ignored:
  assumes utc: "leftmost (utcPhraseAt txt) txt = None"
    and nohours: "noPositiveHours txt"
  shows "ExtractWaitSecs now txt = 3600"
proof (cases "leftmost (hoursPhraseAt txt) txt")
  case None
  then show ?thesis
    unfolding ExtractWaitSecs_no_utc[OF utc] relativeWait_phrases by simp
next
  case (Some xs)
  from leftmost_SomeD[OF Some] obtain i where "i \<le> length txt" "hoursPhraseAt txt i = Some xs"
    by blast
  with nohours have "number xs = 0" by (rule noPositiveHoursD)
  then show ?thesis
    unfolding ExtractWaitSecs_no_utc[OF utc] relativeWait_phrases Some by (simp add: maxInt_def)
qed


theorem minutes_only_ignored_witness:
  "leftmost (utcPhraseAt (runes ''in 45 minutes'')) (runes ''in 45 minutes'') = None \<and>
   noPositiveHours (runes ''in 45 minutes'') \<and>
   leftmost (minutesPhraseAt (runes ''in 45 minutes'')) (runes ''in 45 minutes'') = Some (runes ''45'') \<and>
   ExtractWaitSecs 0 (runes ''in 45 minutes'') = 3600"
proof -
  let ?t = "runes ''in 45 minutes''"
  have u: "leftmost (utcPhraseAt ?t) ?t = None" by code_simp
  have h: "noPositiveHours ?t" by code_simp
  have m: "leftmost (minutesPhraseAt ?t) ?t = Some (runes ''45'')" by code_simp
  from minutes_only_ignored[OF u h, of 0] u h m show ?thesis by blast
qed

subsection \<open>ExtractWaitSecs: the wall-clock strategy\<close>

lemma quo_pos: "0 \<le> a \<Longrightarrow> 0 < b \<Longrightarrow> quo a b = a div b"
  unfolding quo_def by (cases "a = 0") simp_all

lemma until_arith:
  fixes T A D :: int
  assumes "0 \<le> T" "T < D" "0 \<le> A" "A < D"
  shows "0 < (if T < A then A - T else A + D - T)"
    and "(if T < A then A - T else A + D - T) \<le> D"
  using assms by auto

lemma tod_bounds: "0 \<le> now mod dayNanos \<and> now mod dayNanos < dayNanos"
  by (simp add: dayNanos_def Second_def)

lemma at_bounds:
  assumes "0 \<le> h" "h < 24" "0 \<le> m" "m < 60"
  shows "0 \<le> (h * 3600 + m * 60) * Second \<and> (h * 3600 + m * 60) * Second < dayNanos"
  using assms by (simp add: dayNanos_def Second_def)

lemma untilNext_pos:
  assumes "0 \<le> h" "0 \<le> m"
  shows "0 < untilNext now h m"
proof -
  have a: "0 \<le> (h * 3600 + m * 60) * Second" using assms by (simp add: Second_def)
  show ?thesis
    unfolding untilNext_def Let_def using tod_bounds[of now] a by auto
qed

lemma untilNext_upper:
  assumes "0 \<le> h" "0 \<le> m"
  shows "untilNext now h m \<le> max ((h * 3600 + m * 60) * Second) dayNanos"
  unfolding untilNext_def Let_def using tod_bounds[of now] by auto

lemma mod_window:
  fixes x D :: int
  assumes "D \<le> x" "x < D + D"
  shows "x mod D = x - D"
proof -
  have "x mod D = (x - D) mod D" by simp
  also have "\<dots> = x - D" by (rule mod_pos_pos_trivial) (use assms in simp_all)
  finally show ?thesis .
qed

lemma untilNext_next_occurrence:
  assumes "0 \<le> h" "h < 24" "0 \<le> m" "m < 60"
  shows "(now + untilNext now h m) mod dayNanos = (h * 3600 + m * 60) * Second"
    and "0 < e \<Longrightarrow> e < untilNext now h m \<Longrightarrow> (now + e) mod dayNanos \<noteq> (h * 3600 + m * 60) * Second"
proof -
  define D where "D = dayNanos"
  define A where "A = (h * 3600 + m * 60) * Second"
  define T where "T = now mod D"
  define U where "U = untilNext now h m"
  have tod: "0 \<le> T" "T < D" using tod_bounds[of now] by (simp_all add: T_def D_def)
  have at: "0 \<le> A" "A < D" using at_bounds[OF assms] by (simp_all add: A_def D_def)
  have U: "U = (if T < A then A - T else A + D - T)"
    by (simp add: U_def untilNext_def Let_def T_def A_def D_def)
  have shift: "(now + x) mod D = (T + x) mod D" for x
    by (simp add: T_def mod_add_left_eq)
  have "(now + U) mod D = A"
  proof (cases "T < A")
    case True
    then have "T + U = A" by (simp add: U)
    then show ?thesis unfolding shift using at by simp
  next
    case False
    then have "T + U = A + D" by (simp add: U)
    then show ?thesis unfolding shift using at by simp
  qed
  then show "(now + untilNext now h m) mod dayNanos = (h * 3600 + m * 60) * Second"
    by (simp add: U_def D_def A_def)
  assume e: "0 < e" "e < untilNext now h m"
  then have eU: "e < U" by (simp add: U_def)
  have "(now + e) mod D \<noteq> A"
  proof (cases "T + e < D")
    case True
    then have "(T + e) mod D = T + e" using tod e by simp
    moreover have "T + e \<noteq> A" using e eU U by (simp split: if_splits)
    ultimately show ?thesis unfolding shift by simp
  next
    case False
    then have ge: "D \<le> T + e" by simp
    have lt: "T + e - D < A" using eU U ge tod at by (simp split: if_splits)
    then have "T + e < D + D" using at by simp
    with ge have "(T + e) mod D = T + e - D" by (rule mod_window)
    then show ?thesis unfolding shift using lt by simp
  qed
  then show "(now + e) mod dayNanos \<noteq> (h * 3600 + m * 60) * Second"
    by (simp add: D_def A_def)
qed

text \<open>
  The first strategy where package \<^verbatim>\<open>time\<close> is exact: the moment named lies less than
  \<open>2\<^sup>2\<^sup>4\<close> seconds after the midnight that starts today, so that \<^verbatim>\<open>Sub\<close> does
  not saturate and \<^verbatim>\<open>int(d.Seconds())\<close> is the number of whole seconds.
\<close>

lemma utcWait_in_range:
  assumes utc: "leftmost (utcPhraseAt txt) txt = Some (hs, ms)"
    and bound: "number hs * 3600 + number ms * 60 < 16777216"
  shows "utcWait now txt =
         (if Second \<le> untilNext now (number hs) (number ms)
          then Some (untilNext now (number hs) (number ms) div Second) else None)"
proof -
  from Find_utc(2)[OF utc] obtain m0 where f: "FindStringSubmatch utcTimeRe txt = [m0, hs, ms]" ..
  from leftmost_SomeD[OF utc] utcPhrase_digits
  have d: "hs \<noteq> []" "isDigits hs" "ms \<noteq> []" "isDigits ms" by blast+
  have h0: "0 \<le> number hs" and m0: "0 \<le> number ms" using d by (simp_all add: number_nonneg)
  have hb: "number hs < 16777216" and mb: "number ms < 16777216" using bound h0 m0 by simp_all
  have h: "Atoi hs = number hs" using Atoi_digits[OF d(1,2)] hb by (simp add: maxInt_def)
  have m: "Atoi ms = number ms" using Atoi_digits[OF d(3,4)] mb by (simp add: maxInt_def)
  let ?u = "untilNext now (number hs) (number ms)"
  let ?t = "DateToday now (number hs) (number ms)"
  have u0: "0 < ?u" using h0 m0 by (rule untilNext_pos)
  have "?u \<le> max ((number hs * 3600 + number ms * 60) * Second) dayNanos"
    using h0 m0 by (rule untilNext_upper)
  also have "\<dots> \<le> 16777216 * Second" using bound by (simp add: dayNanos_def Second_def)
  finally have u1: "?u \<le> 16777216 * Second" .
  have sub: "Sub (if \<not> now < ?t then ?t + 24 * (3600 * Second) else ?t) now = ?u"
  proof -
    have "(if \<not> now < ?t then ?t + 24 * (3600 * Second) else ?t) - now = ?u"
      unfolding DateToday_def untilNext_def Let_def dayNanos_def Second_def
      by (simp add: algebra_simps)
    moreover have "?u \<le> maxInt" "minInt \<le> ?u"
      using u0 u1 by (simp_all add: Second_def maxInt_def minInt_def)
    ultimately show ?thesis unfolding Sub_def by simp
  qed
  have secs: "SecondsInt ?u = ?u div Second"
    unfolding SecondsInt_def using u0 by (simp add: quo_pos Second_def)
  have pos: "0 < ?u div Second \<longleftrightarrow> Second \<le> ?u"
    using u0 by (simp add: Second_def pos_imp_zdiv_pos_iff)
  show ?thesis
    unfolding utcWait_def f list.case h m Let_def sub secs pos by simp
qed

text \<open>
  Claim C4.  Let ``after \<open>HH\<close>:\<open>MM\<close> UTC'' be the phrase that the pattern finds, the
  leftmost of the text, with \<open>HH\<close> hours and \<open>MM\<close> minutes making less than
  \<open>2\<^sup>2\<^sup>4\<close> seconds, as every time of day does.  For every clock the result is the
  number of whole seconds from now to \<open>HH\<close>:\<open>MM\<close> of today if that is still ahead,
  else to the same time on the next day, whatever relative duration the text also has;
  when that number is 0 the result is the one of the relative strategy.  The distance
  is positive, and for a time of day (\<open>HH < 24\<close>, \<open>MM < 60\<close>) it is the distance to the
  next occurrence: the wall clock shows \<open>HH\<close>:\<open>MM\<close>:00 then and at no moment in
  between.
\<close>

theorem utc_target:
  assumes "leftmost (utcPhraseAt txt) txt = Some (hs, ms)"
    and "number hs * 3600 + number ms * 60 < 16777216"
  shows "ExtractWaitSecs now txt =
           (if Second \<le> untilNext now (number hs) (number ms)
            then untilNext now (number hs) (number ms) div Second
            else relativeWait txt) \<and>
         0 < untilNext now (number hs) (number ms) \<and>
         (number hs < 24 \<and> number ms < 60 \<longrightarrow>
            timeOfDay (now + untilNext now (number hs) (number ms)) = wallClock (number hs) (number ms) \<and>
            (\<forall>e. 0 < e \<and> e < untilNext now (number hs) (number ms) \<longrightarrow>
                 timeOfDay (now + e) \<noteq> wallClock (number hs) (number ms)))"
proof -
  from leftmost_SomeD[OF assms(1)] utcPhrase_digits
  have "isDigits hs" "isDigits ms" by blast+
  then have h0: "0 \<le> number hs" and m0: "0 \<le> number ms" by (simp_all add: number_nonneg)
  have 1: "ExtractWaitSecs now txt =
           (if Second \<le> untilNext now (number hs) (number ms)
            then untilNext now (number hs) (number ms) div Second
            else relativeWait txt)"
    unfolding ExtractWaitSecs_def utcWait_in_range[OF assms] by simp
  have 2: "0 < untilNext now (number hs) (number ms)"
    using h0 m0 by (rule untilNext_pos)
  have 3: "timeOfDay (now + untilNext now (number hs) (number ms)) = wallClock (number hs) (number ms)"
    if "number hs < 24" "number ms < 60"
    unfolding timeOfDay_def wallClock_def
    using h0 that(1) m0 that(2) by (rule untilNext_next_occurrence)
  have 4: "\<forall>e. 0 < e \<and> e < untilNext now (number hs) (number ms) \<longrightarrow>
              timeOfDay (now + e) \<noteq> wallClock (number hs) (number ms)"
    if "number hs < 24" "number ms < 60"
    unfolding timeOfDay_def wallClock_def
    using untilNext_next_occurrence(2)[OF h0 that(1) m0 that(2)] by blast
  from 3 4 have 5: "number hs < 24 \<and> number ms < 60 \<longrightarrow>
            timeOfDay (now + untilNext now (number hs) (number ms)) = wallClock (number hs) (number ms) \<and>
            (\<forall>e. 0 < e \<and> e < untilNext now (number hs) (number ms) \<longrightarrow>
                 timeOfDay (now + e) \<noteq> wallClock (number hs) (number ms))"
    by blast
  from 1 2 5 show ?thesis by (intro conjI)
qed

theorem utc_target_witness:
  "leftmost (utcPhraseAt (runes ''try again after 14:00 UTC in 2 hours''))
     (runes ''try again after 14:00 UTC in 2 hours'') = Some (runes ''14'', runes ''00'') \<and>
   number (runes ''14'') * 3600 + number (runes ''00'') * 60 < 16777216 \<and>
   number (runes ''14'') < 24 \<and> number (runes ''00'') < 60 \<and>
   ExtractWaitSecs 46800500000000 (runes ''try again after 14:00 UTC in 2 hours'') = 3599 \<and>
   timeOfDay (46800500000000 + untilNext 46800500000000 14 0) = wallClock 14 0 \<and>
   ExtractWaitSecs 54000000000000 (runes ''try again after 14:00 UTC in 2 hours'') = 82800 \<and>
   ExtractWaitSecs 50399500000000 (runes ''try again after 14:00 UTC in 2 hours'') = 7200"
proof -
  let ?t = "runes ''try again after 14:00 UTC in 2 hours''"
  have u: "leftmost (utcPhraseAt ?t) ?t = Some (runes ''14'', runes ''00'')" by code_simp
  have n: "number (runes ''14'') = 14" "number (runes ''00'') = 0" by code_simp+
  have r: "relativeWait ?t = 7200" by code_simp
  have k: "number (runes ''14'') * 3600 + number (runes ''00'') * 60 < 16777216"
    unfolding n by simp
  have h: "number (runes ''14'') < 24" and m: "number (runes ''00'') < 60"
    unfolding n by simp_all
  have a: "ExtractWaitSecs 46800500000000 ?t = 3599"
    using utc_target[OF u k, of 46800500000000] unfolding n
    by (simp add: untilNext_def dayNanos_def Second_def)
  have o: "timeOfDay (46800500000000 + untilNext 46800500000000 14 0) = wallClock 14 0"
    using utc_target[OF u k, of 46800500000000] unfolding n by simp
  have b: "ExtractWaitSecs 54000000000000 ?t = 82800"
    using utc_target[OF u k, of 54000000000000] unfolding n
    by (simp add: untilNext_def dayNanos_def Second_def)
  have c: "ExtractWaitSecs 50399500000000 ?t = 7200"
    using utc_target[OF u k, of 50399500000000] unfolding n r
    by (simp add: untilNext_def dayNanos_def Second_def)
  from u k h m a o b c show ?thesis by blast
qed

text \<open>
  A phrase beyond the times of day: at 00:30:00 UTC the text ``after 25:30 UTC'' gives
  90000 seconds, the distance to 01:30 of the next day, which \<^verbatim>\<open>time.Date\<close> makes of
  25:30 of today.
\<close>

lemma beyond_a_day_example:
  "ExtractWaitSecs 1800000000000 (runes ''after 25:30 UTC'') = 90000"
  "untilNext 1800000000000 25 30 div Second = 90000"
  by code_simp+

subsection \<open>The sign of the result\<close>

lemma utcWait_positive: "utcWait now txt = Some secs \<Longrightarrow> 0 < secs"
  unfolding utcWait_def Let_def by (auto split: list.splits if_splits)

text \<open>
  The result is positive whenever the relative duration fits an \<^verbatim>\<open>int\<close>: the first
  strategy returns only a positive number, and the fallback is 3600.
\<close>

lemma ExtractWaitSecs_positive_in_range:
  assumes "(case leftmost (hoursPhraseAt txt) txt of None \<Rightarrow> 0 | Some xs \<Rightarrow> number xs) * 3600 +
           minutesOf txt * 60 \<le> maxInt"
  shows "0 < ExtractWaitSecs now txt"
proof (cases "utcWait now txt")
  case (Some secs)
  then show ?thesis unfolding ExtractWaitSecs_def by (simp add: utcWait_positive)
next
  case None
  have y0: "0 \<le> minutesOf txt"
  proof (cases "leftmost (minutesPhraseAt txt) txt")
    case None
    then show ?thesis by (simp add: minutesOf_def)
  next
    case (Some ys)
    from leftmost_SomeD[OF Some] minutesPhrase_digits have "isDigits ys" by blast
    then show ?thesis by (simp add: minutesOf_def Some number_nonneg)
  qed
  have y: "(case leftmost (minutesPhraseAt txt) txt of None \<Rightarrow> 0 | Some ys \<Rightarrow> min maxInt (number ys)) \<le>
           minutesOf txt"
    unfolding minutesOf_def by (simp split: option.splits)
  have y': "0 \<le> (case leftmost (minutesPhraseAt txt) txt of None \<Rightarrow> 0 | Some ys \<Rightarrow> min maxInt (number ys))"
    using y0 unfolding minutesOf_def by (simp split: option.splits add: maxInt_def)
  show ?thesis
  proof (cases "leftmost (hoursPhraseAt txt) txt")
    case None
    then show ?thesis
      unfolding ExtractWaitSecs_def \<open>utcWait now txt = None\<close> relativeWait_phrases by simp
  next
    case (Some xs)
    from leftmost_SomeD[OF Some] hoursPhrase_digits have "isDigits xs" by blast
    then have x0: "0 \<le> number xs" by (rule number_nonneg)
    from assms Some y0 x0 have xm: "number xs \<le> maxInt" by simp
    show ?thesis
    proof (cases "0 < number xs")
      case False
      with x0 have "number xs = 0" by simp
      then show ?thesis
        unfolding ExtractWaitSecs_def \<open>utcWait now txt = None\<close> relativeWait_phrases Some
        by (simp add: maxInt_def)
    next
      case True
      let ?m = "case leftmost (minutesPhraseAt txt) txt of None \<Rightarrow> 0 | Some ys \<Rightarrow> min maxInt (number ys)"
      have le: "number xs * 3600 + ?m * 60 \<le> maxInt" using assms Some y by simp
      have ge: "0 \<le> number xs * 3600 + ?m * 60" using x0 y' by simp
      have "int64 (number xs * 3600 + ?m * 60) = number xs * 3600 + ?m * 60"
        using ge le by (rule int64_id)
      moreover have "0 < number xs * 3600 + ?m * 60" using True y' by simp
      ultimately show ?thesis
        unfolding ExtractWaitSecs_def \<open>utcWait now txt = None\<close> relativeWait_phrases Some
        using True xm by (simp add: Let_def)
    qed
  qed
qed

text \<open>
  Claim C8 fails on the code.  \<^verbatim>\<open>hours*3600 + mins*60\<close> is computed in \<^verbatim>\<open>int\<close> and
  wraps around: on ``in 2562047788015216 hours'' the result is negative, and on ``in
  1152921504606846976 hours'' it is 0.
\<close>

theorem ExtractWaitSecs_overflow:
  "ExtractWaitSecs now (runes ''in 2562047788015216 hours'') = - 9223372036854774016 \<and>
   ExtractWaitSecs now (runes ''in 1152921504606846976 hours'') = 0"
  by code_simp

subsection \<open>Watch: cancellation\<close>

lemma run_append:
  "run cfg session paneID n st (es @ es') =
     (let (st', acts) = run cfg session paneID n st es;
          (st'', acts') = run cfg session paneID n st' es'
      in (st'', acts @ acts'))"
  by (induction es arbitrary: st) (simp_all add: Let_def split: prod.splits)

lemma step_CtxDone:
  "snd (step cfg session paneID n st CtxDone) = [] \<and>
   (at (fst (step cfg session paneID n st CtxDone)) = Returned \<or>
    at (fst (step cfg session paneID n st CtxDone)) = Stuck)"
  by (simp add: step_def split: point.splits)

lemma step_CtxDone_select:
  "at st = AtSelect \<or> at st = AtWaitSelect d \<Longrightarrow>
   at (fst (step cfg session paneID n st CtxDone)) = Returned"
  by (auto simp: step_def)

lemma step_final:
  "at st = Returned \<or> at st = Stuck \<Longrightarrow> step cfg session paneID n st e = (st, [])"
  by (auto simp: step_def split: event.splits)

lemma run_final:
  "at st = Returned \<or> at st = Stuck \<Longrightarrow> run cfg session paneID n st es = (st, [])"
  by (induction es) (simp_all add: step_final)

lemma run_CtxDone:
  "snd (run cfg session paneID n st (CtxDone # es)) = []"
proof -
  obtain st' acts where s: "step cfg session paneID n st CtxDone = (st', acts)"
    by (cases "step cfg session paneID n st CtxDone")
  with step_CtxDone[of cfg session paneID n st]
  have "acts = []" "at st' = Returned \<or> at st' = Stuck" by simp_all
  with s show ?thesis by (simp add: run_final)
qed

text \<open>
  Claim C6.  Once a \<^verbatim>\<open>select\<close> of \<^verbatim>\<open>Watch\<close> has taken the case \<^verbatim>\<open><-ctx.Done()\<close>,
  nothing more is done, whatever the outside answers afterwards: the actions are those
  performed before, so no resume is sent.  When this happens at the \<^verbatim>\<open>select\<close> of the
  polling loop or at the one of the waiting loop, \<^verbatim>\<open>Watch\<close> has returned.
\<close>

theorem cancelled_never_resumes:
  "snd (Watch cfg session paneID n (es @ CtxDone # es')) = snd (Watch cfg session paneID n es) \<and>
   (at (fst (Watch cfg session paneID n es)) = AtSelect \<or>
    at (fst (Watch cfg session paneID n es)) = AtWaitSelect d \<longrightarrow>
    fst (Watch cfg session paneID n (es @ CtxDone # es')) =
      (fst (Watch cfg session paneID n es))\<lparr>at := Returned\<rparr>)"
proof -
  let ?s0 = "\<lparr>detected = False, at = AtSelect\<rparr>"
  obtain st acts where r: "run cfg session paneID n ?s0 es = (st, acts)"
    by (cases "run cfg session paneID n ?s0 es")
  obtain st' acts' where r': "run cfg session paneID n st (CtxDone # es') = (st', acts')"
    by (cases "run cfg session paneID n st (CtxDone # es')")
  from run_CtxDone[of cfg session paneID n st es'] r' have a: "acts' = []" by simp
  have all: "run cfg session paneID n ?s0 (es @ CtxDone # es') = (st', acts)"
    by (simp only: run_append r r' Let_def prod.case a append_Nil2)
  have 1: "snd (Watch cfg session paneID n (es @ CtxDone # es')) = snd (Watch cfg session paneID n es)"
    unfolding Watch_def all r by simp
  have 2: "st' = st\<lparr>at := Returned\<rparr>" if "at st = AtSelect \<or> at st = AtWaitSelect d"
  proof -
    have "step cfg session paneID n st CtxDone = (st\<lparr>at := Returned\<rparr>, [])"
      using that by (auto simp: step_def)
    with r' show ?thesis by (simp add: run_final)
  qed
  show ?thesis
    using 1 2 unfolding Watch_def all r by simp
qed

lemma formats_differ: "resumeFormat \<noteq> hitFormat"
  by (simp add: resumeFormat_def hitFormat_def)

lemma oneAtATime_announce:
  "oneAtATime a (announce paneID n t @ as) = (\<not> a \<and> oneAtATime True as)"
  by (simp add: announce_def Let_def)

lemma oneAtATime_resume:
  "oneAtATime a (resume cfg paneID n @ as) = (a \<and> oneAtATime False as)"
  by (simp add: resume_def formats_differ)

lemma oneAtATime_step:
  assumes "step cfg session paneID n st e = (st', acts)"
    and "at st' = Returned \<or> at st' = Stuck \<longrightarrow> as = []"
    and "oneAtATime (waiting (at st')) as"
  shows "oneAtATime (waiting (at st)) (acts @ as)"
  using assms
  by (auto simp: step_def oneAtATime_announce oneAtATime_resume
      oneAtATime_announce[where as = "[]", simplified] oneAtATime_resume[where as = "[]", simplified]
      split: point.splits event.splits if_splits)

lemma oneAtATime_run:
  "oneAtATime (waiting (at st)) (snd (run cfg session paneID n st es))"
proof (induction es arbitrary: st)
  case Nil
  show ?case by simp
next
  case (Cons e es)
  obtain st' acts where s: "step cfg session paneID n st e = (st', acts)"
    by (cases "step cfg session paneID n st e")
  obtain st'' acts' where r: "run cfg session paneID n st' es = (st'', acts')"
    by (cases "run cfg session paneID n st' es")
  from Cons[of st'] r have "oneAtATime (waiting (at st')) acts'" by simp
  moreover have "at st' = Returned \<or> at st' = Stuck \<longrightarrow> acts' = []"
    using run_final[of st' cfg session paneID n es] r by auto
  ultimately have "oneAtATime (waiting (at st)) (acts @ acts')"
    using s by (intro oneAtATime_step)
  with s r show ?case by simp
qed

subsection \<open>Watch: one event at a time\<close>

lemma cycleInv_step: "cycleInv st \<Longrightarrow> cycleInv (fst (step cfg session paneID n st e))"
  unfolding cycleInv_def
  by (auto simp: step_def split: point.splits event.splits if_splits)

lemma cycleInv_run: "cycleInv st \<Longrightarrow> cycleInv (fst (run cfg session paneID n st es))"
proof (induction es arbitrary: st)
  case Nil
  then show ?case by simp
next
  case (Cons e es)
  from cycleInv_step[OF Cons.prems] have "cycleInv (fst (step cfg session paneID n st e))" .
  from Cons.IH[OF this] show ?case by (simp add: case_prod_unfold Let_def)
qed

lemma cycleInv_Watch: "cycleInv (fst (Watch cfg session paneID n es))"
  unfolding Watch_def by (rule cycleInv_run) (simp add: cycleInv_def)

lemma capture_while_detected:
  assumes "detected st"
  shows "snd (step cfg session paneID n st (Captured content)) = [] \<and>
         detected (fst (step cfg session paneID n st (Captured content))) \<and>
         \<not> detecting (at (fst (step cfg session paneID n st (Captured content))))"
  using assms by (auto simp: step_def split: point.splits)

lemma wait_keeps_deadline:
  assumes "deadlineAt (at st) = Some d"
  shows "snd (step cfg session paneID n st e) = [] \<and>
         (deadlineAt (at (fst (step cfg session paneID n st e))) = Some d \<or>
          deadlineAt (at (fst (step cfg session paneID n st e))) = None)"
  using assms by (auto simp: step_def split: point.splits event.splits)

text \<open>
  Claim C7.  In every run of \<^verbatim>\<open>Watch\<close>, detections and resumes alternate: no detection
  is logged while a wait is in progress.  While it waits, the flag \<^verbatim>\<open>detected\<close> is set.
  With the flag set, a capture starts no detection and logs nothing, whatever the text.
  In the waiting loop no step performs an action, and the deadline stays the same until
  the loop is left.
\<close>

theorem one_event_at_a_time:
  "oneAtATime False (snd (Watch cfg session paneID n es)) \<and>
   (waiting (at (fst (Watch cfg session paneID n es))) \<longrightarrow>
      detected (fst (Watch cfg session paneID n es))) \<and>
   (detected st \<longrightarrow>
      snd (step cfg session paneID n st (Captured content)) = [] \<and>
      detected (fst (step cfg session paneID n st (Captured content))) \<and>
      \<not> detecting (at (fst (step cfg session paneID n st (Captured content))))) \<and>
   (deadlineAt (at st') = Some d \<longrightarrow>
      snd (step cfg session paneID n st' e) = [] \<and>
      (deadlineAt (at (fst (step cfg session paneID n st' e))) = Some d \<or>
       deadlineAt (at (fst (step cfg session paneID n st' e))) = None))"
proof -
  have "oneAtATime (waiting (at \<lparr>detected = False, at = AtSelect\<rparr>))
          (snd (run cfg session paneID n \<lparr>detected = False, at = AtSelect\<rparr> es))"
    by (rule oneAtATime_run)
  then have 1: "oneAtATime False (snd (Watch cfg session paneID n es))"
    by (simp add: Watch_def)
  have 2: "waiting (at (fst (Watch cfg session paneID n es))) \<longrightarrow>
           detected (fst (Watch cfg session paneID n es))"
    using cycleInv_Watch[of cfg session paneID n es] by (simp add: cycleInv_def)
  have 3: "detected st \<longrightarrow>
      snd (step cfg session paneID n st (Captured content)) = [] \<and>
      detected (fst (step cfg session paneID n st (Captured content))) \<and>
      \<not> detecting (at (fst (step cfg session paneID n st (Captured content))))"
    by (rule impI) (rule capture_while_detected)
  have 4: "deadlineAt (at st') = Some d \<longrightarrow>
      snd (step cfg session paneID n st' e) = [] \<and>
      (deadlineAt (at (fst (step cfg session paneID n st' e))) = Some d \<or>
       deadlineAt (at (fst (step cfg session paneID n st' e))) = None)"
    by (rule impI) (rule wait_keeps_deadline)
  from 1 2 3 4 show ?thesis by (intro conjI)
qed

subsection \<open>Watch: the deadline and the resume\<close>

lemma resume_transition:
  "at st = AtHasSession \<Longrightarrow>
   step cfg session paneID n st (SessionIs True) =
     (st\<lparr>detected := False, at := AtSelect\<rparr>,
      [Logf resumeFormat [itoa n, CLIType cfg],
       SendKeys paneID (CLIType cfg @ '' --continue''),
       SetPaneTitle paneID (''worker-'' @ itoa n)])"
  by (simp add: step_def resume_def)

lemma session_gone:
  "at st = AtHasSession \<Longrightarrow>
   step cfg session paneID n st (SessionIs False) = (st\<lparr>at := Returned\<rparr>, [])"
  by (simp add: step_def)

lemma send_only_at_session_check:
  assumes "SendKeys target keys \<in> set (snd (step cfg session paneID n st e))"
  shows "at st = AtHasSession \<and> e = SessionIs True"
  using assms
  by (auto simp: step_def announce_def Let_def split: point.splits event.splits if_splits)

lemma session_check_after_deadline:
  assumes "at (fst (step cfg session paneID n st e)) = AtHasSession"
  shows "\<exists>deadline now. at st = AtLoopClock deadline \<and> e = ClockIs now \<and> deadline \<le> now"
  using assms
  by (auto simp: step_def split: point.splits event.splits if_splits)

lemma detection_deadline:
  assumes "at st = AtCapture" and "\<not> detected st" and "HasError content"
    and "0 \<le> ExtractWaitSecs t0 content + ResumeBufferSec cfg"
    and "(ExtractWaitSecs t0 content + ResumeBufferSec cfg) * Second \<le> maxInt"
  shows "run cfg session paneID n st [Captured content, ClockIs t0, ClockIs t1] =
           (st\<lparr>detected := True,
               at := AtLoopClock (t1 + (ExtractWaitSecs t0 content + ResumeBufferSec cfg) * Second)\<rparr>,
            announce paneID n (ExtractWaitSecs t0 content + ResumeBufferSec cfg))"
proof -
  let ?w = "ExtractWaitSecs t0 content + ResumeBufferSec cfg"
  have "?w \<le> ?w * Second" using assms(4) by (simp add: Second_def)
  with assms(5) have "?w \<le> maxInt" by simp
  with assms(4) have t: "totalSecsOf cfg t0 content = ?w"
    unfolding totalSecsOf_def by (simp add: int64_id)
  have "0 \<le> ?w * Second" using assms(4) by (simp add: Second_def)
  with assms(5) have d: "deadlineOf t1 ?w = t1 + ?w * Second"
    unfolding deadlineOf_def by (simp add: int64_id)
  show ?thesis using assms(1-3) by (simp add: step_def t d)
qed

subsection \<open>Watch: runs\<close>

theorem cancelled_never_resumes_witness:
  "at (fst (Watch defaultConfig ''claude-swarm'' ''%4'' 4
        [TimerFired, Captured (runes ''API usage limits - try again after 14:00 UTC''),
         ClockIs 50370000000000, ClockIs 50370000000000, ClockIs 50370000000000])) =
     AtWaitSelect 50520000000000 \<and>
   snd (Watch defaultConfig ''claude-swarm'' ''%4'' 4
        ([TimerFired, Captured (runes ''API usage limits - try again after 14:00 UTC''),
          ClockIs 50370000000000, ClockIs 50370000000000, ClockIs 50370000000000] @
         CtxDone # [ClockIs 50520000000000, SessionIs True])) =
     [Logf hitFormat [''4'', ''0'', ''2''], SetPaneTitle ''%4'' ''worker-4 [wait 0h2m]''] \<and>
   fst (Watch defaultConfig ''claude-swarm'' ''%4'' 4
        ([TimerFired, Captured (runes ''API usage limits - try again after 14:00 UTC''),
          ClockIs 50370000000000, ClockIs 50370000000000, ClockIs 50370000000000] @
         CtxDone # [ClockIs 50520000000000, SessionIs True])) =
     \<lparr>detected = True, at = Returned\<rparr>"
proof -
  let ?es = "[TimerFired, Captured (runes ''API usage limits - try again after 14:00 UTC''),
         ClockIs 50370000000000, ClockIs 50370000000000, ClockIs 50370000000000]"
  have w: "Watch defaultConfig ''claude-swarm'' ''%4'' 4 ?es =
           (\<lparr>detected = True, at = AtWaitSelect 50520000000000\<rparr>,
            [Logf hitFormat [''4'', ''0'', ''2''], SetPaneTitle ''%4'' ''worker-4 [wait 0h2m]''])"
    by code_simp
  from cancelled_never_resumes[of defaultConfig "''claude-swarm''" "''%4''" 4 ?es
      "[ClockIs 50520000000000, SessionIs True]" 50520000000000]
  show ?thesis unfolding w by simp
qed

theorem one_event_at_a_time_witness:
  "oneAtATime False (snd (Watch defaultConfig ''claude-swarm'' ''%4'' 4
        [TimerFired, Captured (runes ''API usage limits - try again after 14:00 UTC''),
         ClockIs 50370000000000, ClockIs 50370000000000, ClockIs 50370000000000])) \<and>
   waiting (at (fst (Watch defaultConfig ''claude-swarm'' ''%4'' 4
        [TimerFired, Captured (runes ''API usage limits - try again after 14:00 UTC''),
         ClockIs 50370000000000, ClockIs 50370000000000, ClockIs 50370000000000]))) \<and>
   detected (fst (Watch defaultConfig ''claude-swarm'' ''%4'' 4
        [TimerFired, Captured (runes ''API usage limits - try again after 14:00 UTC''),
         ClockIs 50370000000000, ClockIs 50370000000000, ClockIs 50370000000000])) \<and>
   detected \<lparr>detected = True, at = AtCapture\<rparr> \<and>
   step defaultConfig ''claude-swarm'' ''%4'' 4 \<lparr>detected = True, at = AtCapture\<rparr>
     (Captured (runes ''API usage limits - try again after 14:00 UTC'')) =
     (\<lparr>detected = True, at = AtSelect\<rparr>, []) \<and>
   deadlineAt (at \<lparr>detected = True, at = AtWaitSelect 50520000000000\<rparr>) = Some 50520000000000 \<and>
   snd (step defaultConfig ''claude-swarm'' ''%4'' 4
     \<lparr>detected = True, at = AtWaitSelect 50520000000000\<rparr> TimerFired) = [] \<and>
   deadlineAt (at (fst (step defaultConfig ''claude-swarm'' ''%4'' 4
     \<lparr>detected = True, at = AtWaitSelect 50520000000000\<rparr> TimerFired))) = Some 50520000000000"
proof -
  let ?es = "[TimerFired, Captured (runes ''API usage limits - try again after 14:00 UTC''),
         ClockIs 50370000000000, ClockIs 50370000000000, ClockIs 50370000000000]"
  let ?c = "Captured (runes ''API usage limits - try again after 14:00 UTC'')"
  have w: "waiting (at (fst (Watch defaultConfig ''claude-swarm'' ''%4'' 4 ?es)))"
    by code_simp
  have s: "step defaultConfig ''claude-swarm'' ''%4'' 4 \<lparr>detected = True, at = AtCapture\<rparr> ?c =
           (\<lparr>detected = True, at = AtSelect\<rparr>, [])"
    by (simp add: step_def)
  have t: "deadlineAt (at (fst (step defaultConfig ''claude-swarm'' ''%4'' 4
     \<lparr>detected = True, at = AtWaitSelect 50520000000000\<rparr> TimerFired))) = Some 50520000000000"
    by (simp add: step_def)
  from one_event_at_a_time[of defaultConfig "''claude-swarm''" "''%4''" 4 ?es
      "\<lparr>detected = True, at = AtCapture\<rparr>" "runes ''API usage limits - try again after 14:00 UTC''"
      "\<lparr>detected = True, at = AtWaitSelect 50520000000000\<rparr>" 50520000000000 TimerFired] w s t
  show ?thesis by simp
qed

text \<open>
  The scenario of the specification: a wait of 30 seconds and a buffer of 120 put the
  deadline 150 seconds after the clock value read for it; the resume is sent once the
  clock has reached the deadline and the session is there.
\<close>

lemma deadline_example:
  "ExtractWaitSecs 50370000000000 (runes ''API usage limits - try again after 14:00 UTC'') = 30 \<and>
   ResumeBufferSec defaultConfig = 120 \<and>
   Watch defaultConfig ''claude-swarm'' ''%4'' 4
     [TimerFired, Captured (runes ''API usage limits - try again after 14:00 UTC''),
      ClockIs 50370000000000, ClockIs 50370000000000, ClockIs 50370000000000, TimerFired,
      ClockIs 50375000000000, TimerFired, ClockIs 50520000000000, SessionIs True] =
     (\<lparr>detected = False, at = AtSelect\<rparr>,
      [Logf hitFormat [''4'', ''0'', ''2''], SetPaneTitle ''%4'' ''worker-4 [wait 0h2m]'',
       Logf resumeFormat [''4'', ''claude,claude,claude,gemini''],
       SendKeys ''%4'' ''claude,claude,claude,gemini --continue'',
       SetPaneTitle ''%4'' ''worker-4''])"
  by code_simp

text \<open>
  Claim C5 fails on the code.  \<^verbatim>\<open>time.Duration(totalSecs) * time.Second\<close> wraps
  around when the total is beyond 9223372036 seconds: on a pane text that says ``in
  2562048 hours'' the deadline lies before the clock value it is computed from, and the
  resume is sent at once.  \<open>detection_deadline\<close> shows the deadline of the claim for
  totals that fit; \<open>send_only_at_session_check\<close>, \<open>session_check_after_deadline\<close> and
  \<open>session_gone\<close> show the rest of the claim.
\<close>

theorem Watch_deadline_overflow:
  "HasError (runes ''rate limit hit, retry after a while: in 2562048 hours'') \<and>
   ExtractWaitSecs 1000 (runes ''rate limit hit, retry after a while: in 2562048 hours'') = 9223372800 \<and>
   totalSecsOf defaultConfig 1000 (runes ''rate limit hit, retry after a while: in 2562048 hours'') =
     9223372920 \<and>
   deadlineOf 1000 9223372920 = - 9223371153709550616 \<and>
   Watch defaultConfig ''claude-swarm'' ''%4'' 4
     [TimerFired, Captured (runes ''rate limit hit, retry after a while: in 2562048 hours''),
      ClockIs 1000, ClockIs 1000, ClockIs 1000, SessionIs True] =
     (\<lparr>detected = False, at = AtSelect\<rparr>,
      [Logf hitFormat [''4'', ''2562048'', ''2''],
       SetPaneTitle ''%4'' ''worker-4 [wait 2562048h2m]'',
       Logf resumeFormat [''4'', ''claude,claude,claude,gemini''],
       SendKeys ''%4'' ''claude,claude,claude,gemini --continue'',
       SetPaneTitle ''%4'' ''worker-4''])"
  by code_simp

text \<open>
  Claim C2.  At the session check with the session alive, \<^verbatim>\<open>Watch\<close> sends to the pane
  the command the worker was started with, followed by \<^verbatim>\<open>--continue\<close>, then sets the
  label back to the one given at the start, which is \<^verbatim>\<open>worker-N\<close>, clears the flag
  \<^verbatim>\<open>detected\<close> and is back at the \<^verbatim>\<open>select\<close> of the polling loop.  The resume of
  the variant that addresses a window does the same with the command and the name its
  worker was started with.  In both revisions that command is \<^verbatim>\<open>cfg.CLIType\<close> alone:
  they give a worker neither a model nor extra flags.
\<close>

theorem resume_sends_worker_command:
  assumes "at st = AtHasSession"
    and "startWorker cfg paneID dir n =
           [SetPaneTitle paneID label, SendKeys paneID (launchKeys dir cmd)]"
    and "startWindowWorker cfg n = (name, [SendKeys target cmdW])"
  shows "step cfg session paneID n st (SessionIs True) =
           (st\<lparr>detected := False, at := AtSelect\<rparr>,
            [Logf resumeFormat [itoa n, cmd],
             SendKeys paneID (cmd @ '' --continue''),
             SetPaneTitle paneID label]) \<and>
         label = ''worker-'' @ itoa n \<and>
         resumeWindow cfg session windowID n =
           [Logf resumeFormat [itoa n, cmdW],
            SendKeys (session @ '':'' @ windowID) (cmdW @ '' --continue''),
            RenameWindow (session @ '':'' @ windowID) name] \<and>
         name = ''worker-'' @ itoa n"
proof -
  from assms(2) have c: "cmd = CLIType cfg" and l: "label = ''worker-'' @ itoa n"
    unfolding startWorker_def launchKeys_def by simp_all
  from assms(3) have w: "cmdW = CLIType cfg" and m: "name = ''worker-'' @ itoa n"
    unfolding startWindowWorker_def Let_def by simp_all
  have s: "step cfg session paneID n st (SessionIs True) =
           (st\<lparr>detected := False, at := AtSelect\<rparr>, resume cfg paneID n)"
    unfolding step_def using assms(1) by simp
  show ?thesis
    unfolding s c l w m resume_def resumeWindow_def Let_def by simp
qed

theorem resume_sends_worker_command_witness:
  "at \<lparr>detected = True, at = AtHasSession\<rparr> = AtHasSession \<and>
   startWorker (defaultConfig\<lparr>CLIType := ''claude''\<rparr>) ''%4'' ''/repo/.wt-4'' 4 =
     [SetPaneTitle ''%4'' ''worker-4'', SendKeys ''%4'' (launchKeys ''/repo/.wt-4'' ''claude'')] \<and>
   startWindowWorker (defaultConfig\<lparr>CLIType := ''claude''\<rparr>) 4 =
     (''worker-4'', [SendKeys ''claude-swarm:worker-4'' ''claude'']) \<and>
   step (defaultConfig\<lparr>CLIType := ''claude''\<rparr>) ''claude-swarm'' ''%4'' 4
     \<lparr>detected = True, at = AtHasSession\<rparr> (SessionIs True) =
     (\<lparr>detected = False, at = AtSelect\<rparr>,
      [Logf resumeFormat [''4'', ''claude''],
       SendKeys ''%4'' ''claude --continue'',
       SetPaneTitle ''%4'' ''worker-4'']) \<and>
   resumeWindow (defaultConfig\<lparr>CLIType := ''claude''\<rparr>) ''claude-swarm'' ''@7'' 4 =
     [Logf resumeFormat [''4'', ''claude''],
      SendKeys ''claude-swarm:@7'' ''claude --continue'',
      RenameWindow ''claude-swarm:@7'' ''worker-4'']"
proof -
  let ?cfg = "defaultConfig\<lparr>CLIType := ''claude''\<rparr>"
  have i: "itoa 4 = ''4''" by code_simp
  have a: "at \<lparr>detected = True, at = AtHasSession\<rparr> = AtHasSession" by simp
  have b: "startWorker ?cfg ''%4'' ''/repo/.wt-4'' 4 =
     [SetPaneTitle ''%4'' ''worker-4'', SendKeys ''%4'' (launchKeys ''/repo/.wt-4'' ''claude'')]"
    unfolding startWorker_def i by simp
  have c: "startWindowWorker ?cfg 4 = (''worker-4'', [SendKeys ''claude-swarm:worker-4'' ''claude''])"
    unfolding startWindowWorker_def i Let_def defaultConfig_def by simp
  from resume_sends_worker_command[OF a b c, of "''claude-swarm''" "''@7''"] a b c
  show ?thesis unfolding i by simp
qed

subsection \<open>The fallback selector\<close>

lemma replaceByName_fst: "fst (replaceByName name fallback workers) = replaced name fallback workers"
  by (induction workers) (simp_all add: replaced_def case_prod_unfold Let_def)

lemma replaceByName_snd:
  "snd (replaceByName name fallback workers) =
     int (length (filter (\<lambda>worker. fst (parseWorker worker) = name) workers))"
  by (induction workers) (simp_all add: case_prod_unfold Let_def)

lemma firstAvailable_two:
  "firstAvailableCLI env [a, b] =
     (if onPath env a then (a, True) else if onPath env b then (b, True) else ('''', False))"
  by (simp add: commandExists_def)

lemma geminiHealthCheck_iff: "geminiHealthCheck p \<longleftrightarrow> \<not> failed p"
  by (simp add: geminiHealthCheck_def)

text \<open>
  The later selector does what claim C9 says.  When some worker has the name
  \<^verbatim>\<open>gemini\<close> and the probe fails, every worker of that name, with or without a model,
  becomes the first of \<^verbatim>\<open>claude\<close>, \<^verbatim>\<open>codex\<close> that is on the search path; when neither
  is, the list is returned as it is, with a warning; in every other case the list is
  returned as it is.  \<^verbatim>\<open>normalizeCodex\<close> does the same for \<^verbatim>\<open>codex\<close>, with \<^verbatim>\<open>claude\<close>,
  \<^verbatim>\<open>gemini\<close> as fallbacks.
\<close>

theorem normalizeGemini_selects:
  "normalizeGemini env workers =
     (if containsCLIType workers ''gemini'' \<and> failed (geminiProbe env)
      then (if onPath env ''claude''
            then (replaced ''gemini'' ''claude'' workers,
                  [GeminiReplaced (snd (replaceByName ''gemini'' ''claude'' workers)) ''claude''])
            else if onPath env ''codex''
            then (replaced ''gemini'' ''codex'' workers,
                  [GeminiReplaced (snd (replaceByName ''gemini'' ''codex'' workers)) ''codex''])
            else (workers, [GeminiNoFallback]))
      else (workers, []))"
  unfolding normalizeGemini_def firstAvailable_two geminiHealthCheck_iff
  by (simp add: case_prod_unfold replaceByName_fst)

theorem normalizeCodex_selects:
  "normalizeCodex env workers =
     (if containsCLIType workers ''codex'' \<and> (failed (codexProbe env) \<or> timedOut (codexProbe env))
      then (if onPath env ''claude''
            then (replaced ''codex'' ''claude'' workers,
                  [CodexReplaced (snd (replaceByName ''codex'' ''claude'' workers)) ''claude''])
            else if onPath env ''gemini''
            then (replaced ''codex'' ''gemini'' workers,
                  [CodexReplaced (snd (replaceByName ''codex'' ''gemini'' workers)) ''gemini''])
            else (workers, [CodexNoFallback]))
      else (workers, []))"
  unfolding normalizeCodex_def firstAvailable_two codexHealthCheck_def
  by (simp add: case_prod_unfold replaceByName_fst)

text \<open>
  Claim C9 fails on the earlier \<^verbatim>\<open>normalizeWorkers\<close>.  Its check for a worker of the
  failing type reads the name before the colon, its replacement loop compares the whole
  string: a worker \<^verbatim>\<open>gemini:gemini-2.0-flash\<close> sets off the probe and the fallback and
  is then left as it is.
\<close>

theorem normalizeWorkers_v1_keeps_model_variant:
  "containsCLIType [''claude'', ''gemini:gemini-2.0-flash'', ''gemini''] ''gemini'' \<and>
   \<not> geminiHealthCheck (geminiProbe brokenGemini) \<and>
   firstAvailableCLI brokenGemini [''claude'', ''codex''] = (''claude'', True) \<and>
   normalizeWorkers_v1 brokenGemini [''claude'', ''gemini:gemini-2.0-flash'', ''gemini''] =
     ([''claude'', ''gemini:gemini-2.0-flash'', ''claude''], [GeminiReplaced 1 ''claude'']) \<and>
   normalizeGemini brokenGemini [''claude'', ''gemini:gemini-2.0-flash'', ''gemini''] =
     ([''claude'', ''claude'', ''claude''], [GeminiReplaced 2 ''claude'']) \<and>
   normalizeWorkers_v1 brokenGemini [''gemini:gemini-2.0-flash''] =
     ([''gemini:gemini-2.0-flash''], [GeminiReplaced 0 ''claude''])"
  by code_simp

text \<open>
  The two selectors of the later \<^verbatim>\<open>normalizeWorkers\<close> run one after the other: with
  both probes failing and \<^verbatim>\<open>claude\<close> not on the path, the workers of \<^verbatim>\<open>gemini\<close> become
  \<^verbatim>\<open>codex\<close> and then \<^verbatim>\<open>gemini\<close> again.
\<close>

lemma normalizeWorkers_v2_back_to_gemini:
  "normalizeWorkers_v2
     \<lparr>geminiProbe = \<lparr>failed = True, out = '''', timedOut = False\<rparr>,
      codexProbe = \<lparr>failed = True, out = '''', timedOut = False\<rparr>,
      onPath = (\<lambda>name. name = ''codex'' \<or> name = ''gemini'')\<rparr>
     [''gemini:gemini-2.0-flash'', ''codex''] =
   ([''gemini'', ''gemini''], [GeminiReplaced 1 ''codex'', CodexReplaced 2 ''gemini''])"
  by code_simp

end
